theory Spec2Isabelle
  imports Main "HOL-Library.AList" "HOL-Library.Multiset"
begin

section \<open>HostManager: per-host health and circuit breakers\<close>

text \<open>
  The class \<^verbatim>\<open>HostManager\<close> keeps two JavaScript \<^verbatim>\<open>Map\<close>s keyed by the host
  address. \<^verbatim>\<open>hosts\<close> is iterated (\<^verbatim>\<open>for (const [host, info] of this.hosts)\<close>), so it
  is an association list in insertion order: \<^verbatim>\<open>Map.set\<close> replaces the value of a known
  key in place and appends a new key, which is \<^const>\<open>AList.update\<close>. \<^verbatim>\<open>circuitBreakers\<close>
  is only looked up by key, so it is a partial function. \<^verbatim>\<open>Date.now()\<close> is a parameter
  \<open>now\<close> (milliseconds): one synchronous call reads the clock as one instant.
\<close>

datatype hstatus = Healthy | Unhealthy | Unknown

datatype bstate = Closed | Open | HalfOpen

record hostinfo =
  lastSeen :: int
  responseTime :: int
  failureCount :: nat
  status :: hstatus
  lastFailure :: "int option"

record breaker =
  failures :: nat
  lastFailureAt :: int
  state :: bstate

record hostmanager =
  hosts :: "(string \<times> hostinfo) list"
  circuitBreakers :: "string \<rightharpoonup> breaker"
  primaryHost :: "string option"
  preferredHost :: "string option"

text \<open>The three entries of \<^verbatim>\<open>this.timeouts\<close>.\<close>

definition breakerOpen :: int where "breakerOpen = 60000"
definition maxHostAge :: int where "maxHostAge = 300000"
definition recentHost :: int where "recentHost = 120000"

text \<open>The state the constructor leaves: empty maps, no primary, no preferred host.\<close>

definition constructor :: hostmanager where
  "constructor = \<lparr>hosts = [], circuitBreakers = Map.empty,
     primaryHost = None, preferredHost = None\<rparr>"

text \<open>
  JavaScript truthiness of a host reference (\<^verbatim>\<open>if (this.preferredHost)\<close>,
  \<^verbatim>\<open>bestHost && ...\<close>, \<^verbatim>\<open>&& this.primaryHost\<close>): \<^verbatim>\<open>null\<close> and the empty string are
  falsy.
\<close>

fun truthy_host :: "string option \<Rightarrow> bool" where
  "truthy_host None = False"
| "truthy_host (Some h) = (h \<noteq> [])"

text \<open>\<^verbatim>\<open>_recordFailure(host)\<close>: creates the record when missing, counts, stamps, trips.\<close>

definition recordFailure :: "int \<Rightarrow> string \<Rightarrow> (string \<rightharpoonup> breaker) \<Rightarrow> (string \<rightharpoonup> breaker)" where
  "recordFailure now host cb =
     (let b0 = (case cb host of None \<Rightarrow> \<lparr>failures = 0, lastFailureAt = 0, state = Closed\<rparr>
                              | Some b \<Rightarrow> b);
          b1 = b0\<lparr>failures := failures b0 + 1, lastFailureAt := now\<rparr>;
          b2 = (if failures b1 \<ge> 3 \<and> state b1 \<noteq> Open then b1\<lparr>state := Open\<rparr> else b1)
      in cb(host \<mapsto> b2))"

text \<open>\<^verbatim>\<open>_resetCircuitBreaker(host)\<close>: only an existing record is touched.\<close>

definition resetCircuitBreaker :: "string \<Rightarrow> (string \<rightharpoonup> breaker) \<Rightarrow> (string \<rightharpoonup> breaker)" where
  "resetCircuitBreaker host cb =
     (case cb host of None \<Rightarrow> cb
                    | Some b \<Rightarrow> cb(host \<mapsto> b\<lparr>failures := 0, state := Closed\<rparr>))"

text \<open>
  \<^verbatim>\<open>_getCircuitBreakerState(host)\<close> returns the state and, for an open breaker whose
  timeout has run out, stores \<^verbatim>\<open>'half-open'\<close>: the result is the pair of the returned
  state and the map after the call.
\<close>

definition getCircuitBreakerState ::
  "int \<Rightarrow> string \<Rightarrow> (string \<rightharpoonup> breaker) \<Rightarrow> bstate \<times> (string \<rightharpoonup> breaker)" where
  "getCircuitBreakerState now host cb =
     (case cb host of
        None \<Rightarrow> (Closed, cb)
      | Some b \<Rightarrow>
          if state b = Open \<and> now - lastFailureAt b > breakerOpen
          then (HalfOpen, cb(host \<mapsto> b\<lparr>state := HalfOpen\<rparr>))
          else (state b, cb))"

text \<open>
  The score of \<^verbatim>\<open>_updatePreferredHost\<close>:
  \<^verbatim>\<open>1000 - info.responseTime - (info.failureCount * 100)\<close>, plus 50 for the primary.
\<close>

definition score :: "string option \<Rightarrow> string \<Rightarrow> hostinfo \<Rightarrow> int" where
  "score primary host info =
     1000 - responseTime info - int (failureCount info) * 100
       + (if primary = Some host then 50 else 0)"

text \<open>
  The loop of \<^verbatim>\<open>_updatePreferredHost\<close> over the entries still to visit. \<open>best\<close> holds
  \<^verbatim>\<open>(bestHost, bestScore)\<close>; \<open>None\<close> is the initial \<^verbatim>\<open>(null, -Infinity)\<close>, below which
  every score lies. The breaker map is threaded because each state query may store
  \<^verbatim>\<open>'half-open'\<close>.
\<close>

fun preferredLoop ::
  "int \<Rightarrow> string option \<Rightarrow> (string \<times> hostinfo) list \<Rightarrow> (string \<rightharpoonup> breaker)
     \<Rightarrow> (string \<times> int) option \<Rightarrow> (string \<times> int) option \<times> (string \<rightharpoonup> breaker)" where
  "preferredLoop now primary [] cb best = (best, cb)"
| "preferredLoop now primary ((host, info) # rest) cb best =
     (case getCircuitBreakerState now host cb of (st, cb') \<Rightarrow>
        if st = Open then preferredLoop now primary rest cb' best
        else if now - lastSeen info > maxHostAge then preferredLoop now primary rest cb' best
        else let sc = score primary host info in
          if (case best of None \<Rightarrow> True | Some (_, bs) \<Rightarrow> sc > bs)
          then preferredLoop now primary rest cb' (Some (host, sc))
          else preferredLoop now primary rest cb' best)"

definition updatePreferredHost :: "int \<Rightarrow> hostmanager \<Rightarrow> hostmanager" where
  "updatePreferredHost now hm =
     (case preferredLoop now (primaryHost hm) (hosts hm) (circuitBreakers hm) None of
        (best, cb') \<Rightarrow>
          let hm' = hm\<lparr>circuitBreakers := cb'\<rparr> in
          (case best of
             None \<Rightarrow> hm'
           | Some (bestHost, _) \<Rightarrow>
               if bestHost \<noteq> [] \<and> Some bestHost \<noteq> preferredHost hm
               then hm'\<lparr>preferredHost := Some bestHost\<rparr> else hm'))"

text \<open>
  \<^verbatim>\<open>updateHostStatus(host, success, responseTime = 0)\<close>. A host without an entry starts
  from \<^verbatim>\<open>{ lastSeen: 0, responseTime: 0, failureCount: 0, status: 'unknown' }\<close>.
\<close>

definition updateHostStatus :: "int \<Rightarrow> string \<Rightarrow> bool \<Rightarrow> int \<Rightarrow> hostmanager \<Rightarrow> hostmanager" where
  "updateHostStatus now host success rt hm =
     (let current = (case map_of (hosts hm) host of
                       None \<Rightarrow> \<lparr>lastSeen = 0, responseTime = 0, failureCount = 0,
                                 status = Unknown, lastFailure = None\<rparr>
                     | Some i \<Rightarrow> i)
      in if success
         then updatePreferredHost now
                (hm\<lparr>hosts := AList.update host
                        (current\<lparr>lastSeen := now, status := Healthy, responseTime := rt,
                                 failureCount := 0\<rparr>) (hosts hm),
                     circuitBreakers := resetCircuitBreaker host (circuitBreakers hm)\<rparr>)
         else hm\<lparr>hosts := AList.update host
                      (current\<lparr>failureCount := failureCount current + 1, status := Unhealthy,
                               lastFailure := Some now\<rparr>) (hosts hm),
                   circuitBreakers := recordFailure now host (circuitBreakers hm)\<rparr>)"

text \<open>\<^verbatim>\<open>setPrimaryHost(host)\<close>.\<close>

definition setPrimaryHost :: "string \<Rightarrow> hostmanager \<Rightarrow> hostmanager" where
  "setPrimaryHost host hm =
     hm\<lparr>primaryHost := Some host,
        circuitBreakers := resetCircuitBreaker host (circuitBreakers hm),
        preferredHost := Some host\<rparr>"

text \<open>
  \<^verbatim>\<open>initialize(primaryHost, initialHosts)\<close>: the primary and every other non-empty
  initial host is recorded as a success with response time 0.
\<close>

fun initializeLoop :: "int \<Rightarrow> string \<Rightarrow> string list \<Rightarrow> hostmanager \<Rightarrow> hostmanager" where
  "initializeLoop now p [] hm = hm"
| "initializeLoop now p (h # hs) hm =
     (if h \<noteq> [] \<and> h \<noteq> p then initializeLoop now p hs (updateHostStatus now h True 0 hm)
      else initializeLoop now p hs hm)"

definition initialize :: "int \<Rightarrow> string \<Rightarrow> string list \<Rightarrow> hostmanager \<Rightarrow> hostmanager" where
  "initialize now p initialHosts hm =
     initializeLoop now p initialHosts
       (updateHostStatus now p True 0 (hm\<lparr>primaryHost := Some p, preferredHost := Some p\<rparr>))"

text \<open>
  \<^verbatim>\<open>getOrderedHostList()\<close>. A candidate is \<^verbatim>\<open>{ host, score }\<close>. The second loop skips
  the preferred host before it queries the breaker. \<^verbatim>\<open>Array.prototype.sort\<close> is stable,
  and so is \<^const>\<open>sort_key\<close>; descending by score is ascending by the negated score.
\<close>

fun othersLoop ::
  "int \<Rightarrow> string option \<Rightarrow> (string \<times> hostinfo) list \<Rightarrow> (string \<rightharpoonup> breaker)
     \<Rightarrow> (string \<times> int) list \<times> (string \<rightharpoonup> breaker)" where
  "othersLoop now pref [] cb = ([], cb)"
| "othersLoop now pref ((host, info) # rest) cb =
     (if Some host = pref then othersLoop now pref rest cb
      else case getCircuitBreakerState now host cb of (st, cb') \<Rightarrow>
        if st = Open then othersLoop now pref rest cb'
        else if now - lastSeen info > maxHostAge then othersLoop now pref rest cb'
        else case othersLoop now pref rest cb' of (cs, cb'') \<Rightarrow>
               ((host, - responseTime info) # cs, cb''))"

definition preferredCandidate ::
  "int \<Rightarrow> hostmanager \<Rightarrow> (string \<times> int) list \<times> (string \<rightharpoonup> breaker)" where
  "preferredCandidate now hm =
     (case preferredHost hm of
        None \<Rightarrow> ([], circuitBreakers hm)
      | Some p \<Rightarrow>
          if p = [] then ([], circuitBreakers hm)
          else case getCircuitBreakerState now p (circuitBreakers hm) of (st, cb') \<Rightarrow>
            (case map_of (hosts hm) p of
               None \<Rightarrow> ([], cb')
             | Some info \<Rightarrow>
                 if st \<noteq> Open \<and> now - lastSeen info < recentHost
                 then ([(p, 999999)], cb') else ([], cb')))"

definition getOrderedHostList :: "int \<Rightarrow> hostmanager \<Rightarrow> string list \<times> hostmanager" where
  "getOrderedHostList now hm =
     (case preferredCandidate now hm of (c1, cb1) \<Rightarrow>
      case othersLoop now (preferredHost hm) (hosts hm) cb1 of (c2, cb2) \<Rightarrow>
        let candidates = sort_key (\<lambda>c. - snd c) (c1 @ c2);
            hm' = hm\<lparr>circuitBreakers := cb2\<rparr>
        in (case primaryHost hm of
              None \<Rightarrow> (map fst candidates, hm')
            | Some p \<Rightarrow>
                if candidates = [] \<and> truthy_host (Some p) then ([p], hm')
                else (map fst candidates, hm')))"

text \<open>\<^verbatim>\<open>cleanup()\<close>: hosts not seen for more than \<^verbatim>\<open>maxHostAge\<close> leave both maps.\<close>

definition cleanup :: "int \<Rightarrow> hostmanager \<Rightarrow> hostmanager" where
  "cleanup now hm =
     hm\<lparr>hosts := filter (\<lambda>(h, info). \<not> now - lastSeen info > maxHostAge) (hosts hm),
        circuitBreakers :=
          (\<lambda>h. if h \<in> set (map fst (filter (\<lambda>(h, info). now - lastSeen info > maxHostAge) (hosts hm)))
               then None else circuitBreakers hm h)\<rparr>"

text \<open>
  The operations a caller can run on a \<^verbatim>\<open>HostManager\<close>, each at the instant the clock
  shows when it runs, and the state after a sequence of them.
\<close>

datatype hm_op =
    UpdateHostStatus string bool int
  | GetCircuitBreakerState string
  | SetPrimaryHost string
  | Initialize string "string list"
  | GetOrderedHostList
  | Cleanup

fun apply_op :: "int \<times> hm_op \<Rightarrow> hostmanager \<Rightarrow> hostmanager" where
  "apply_op (now, UpdateHostStatus h ok rt) hm = updateHostStatus now h ok rt hm"
| "apply_op (now, GetCircuitBreakerState h) hm =
     hm\<lparr>circuitBreakers := snd (getCircuitBreakerState now h (circuitBreakers hm))\<rparr>"
| "apply_op (now, SetPrimaryHost h) hm = setPrimaryHost h hm"
| "apply_op (now, Initialize p hs) hm = initialize now p hs hm"
| "apply_op (now, GetOrderedHostList) hm = snd (getOrderedHostList now hm)"
| "apply_op (now, Cleanup) hm = cleanup now hm"

fun run_ops :: "(int \<times> hm_op) list \<Rightarrow> hostmanager \<Rightarrow> hostmanager" where
  "run_ops [] hm = hm"
| "run_ops (x # xs) hm = run_ops xs (apply_op x hm)"

definition open_implies_threshold :: "(string \<rightharpoonup> breaker) \<Rightarrow> bool" where
  "open_implies_threshold cb = (\<forall>h b. cb h = Some b \<longrightarrow> state b = Open \<longrightarrow> 3 \<le> failures b)"

text \<open>
  A breaker that has not counted anything yet: no record for the host, or a record that is
  closed with zero failures (as \<^verbatim>\<open>_resetCircuitBreaker\<close> leaves it).
\<close>

definition fresh_breaker :: "hostmanager \<Rightarrow> string \<Rightarrow> bool" where
  "fresh_breaker hm h =
     (case circuitBreakers hm h of None \<Rightarrow> True | Some b \<Rightarrow> failures b = 0 \<and> state b = Closed)"

text \<open>
  For the statements about preference and ordering. \<open>readState\<close> is the state a query
  returns. \<open>scored\<close> lists, in iteration order, the hosts \<^verbatim>\<open>_updatePreferredHost\<close> does not
  skip, each with its score. \<open>pick\<close> is one comparison \<^verbatim>\<open>score > bestScore\<close>.
\<close>

definition readState :: "int \<Rightarrow> (string \<rightharpoonup> breaker) \<Rightarrow> string \<Rightarrow> bstate" where
  "readState now cb h = fst (getCircuitBreakerState now h cb)"

definition scoredOf ::
  "int \<Rightarrow> string option \<Rightarrow> (string \<rightharpoonup> breaker) \<Rightarrow> (string \<times> hostinfo) list \<Rightarrow> (string \<times> int) list" where
  "scoredOf now primary cb hs =
     map (\<lambda>(h, i). (h, score primary h i))
       (filter (\<lambda>(h, i). readState now cb h \<noteq> Open \<and> \<not> now - lastSeen i > maxHostAge) hs)"

definition scored :: "int \<Rightarrow> hostmanager \<Rightarrow> (string \<times> int) list" where
  "scored now hm = scoredOf now (primaryHost hm) (circuitBreakers hm) (hosts hm)"

fun pick :: "(string \<times> int) option \<Rightarrow> string \<times> int \<Rightarrow> (string \<times> int) option" where
  "pick None c = Some c"
| "pick (Some b) c = (if snd c > snd b then Some c else Some b)"

text \<open>
  The state of the repository's own test of the scoring (\<^verbatim>\<open>tests/test_libs.js\<close>) before
  its last update: primary and backup initialised, the backup answered in 10 ms.
\<close>

definition p1_state :: hostmanager where
  "p1_state = updateHostStatus 20 ''backup.local'' True 10
     (initialize 10 ''primary.local'' [''backup.local'', ''primary.local''] constructor)"

text \<open>
  The hosts \<^verbatim>\<open>_updatePreferredHost\<close> is to score, said without the functions of the
  code: a host is left out while its breaker is stored as open and the last failure lies at
  most 60000 ms back, or when it was last seen more than 300000 ms ago; the others get 1000
  minus the response time minus 100 per failure, plus 50 for the primary host.
\<close>

definition breaker_blocks :: "int \<Rightarrow> (string \<rightharpoonup> breaker) \<Rightarrow> string \<Rightarrow> bool" where
  "breaker_blocks now cb h =
     (case cb h of None \<Rightarrow> False
                 | Some b \<Rightarrow> state b = Open \<and> now - lastFailureAt b \<le> 60000)"

definition eligible :: "int \<Rightarrow> hostmanager \<Rightarrow> (string \<times> int) list" where
  "eligible now hm =
     map (\<lambda>(h, i). (h, 1000 - responseTime i - int (failureCount i) * 100
                          + (if primaryHost hm = Some h then 50 else 0)))
       (filter (\<lambda>(h, i). \<not> breaker_blocks now (circuitBreakers hm) h
                          \<and> now - lastSeen i \<le> 300000) (hosts hm))"

text \<open>
  Two more states reached by operations alone. In the first the backup 10.0.0.3 has failed
  three times, so that its breaker is open while its score would still be 700. In the
  second the backup answered in 10 ms at time 1 and has not been heard of since.
\<close>

definition open_backup_state :: hostmanager where
  "open_backup_state = run_ops
     [(0, Initialize ''10.0.0.1'' [''10.0.0.3'']),
      (10, UpdateHostStatus ''10.0.0.3'' False 0),
      (20, UpdateHostStatus ''10.0.0.3'' False 0),
      (30, UpdateHostStatus ''10.0.0.3'' False 0)] constructor"

definition aged_backup_state :: hostmanager where
  "aged_backup_state = run_ops
     [(0, Initialize ''primary.local'' [''backup.local'']),
      (1, UpdateHostStatus ''backup.local'' True 10)] constructor"

text \<open>
  The ordering as the specification words it, to compare \<^verbatim>\<open>getOrderedHostList\<close> with:
  the preferred host when it is set, known, not read as open and seen less than
  \<^verbatim>\<open>recentHost\<close> ago; then the other hosts not read as open and seen at most
  \<^verbatim>\<open>maxHostAge\<close> ago, by ascending response time. \<open>stored_open\<close> looks at the state
  field as stored.
\<close>

definition prefQualifies :: "int \<Rightarrow> hostmanager \<Rightarrow> bool" where
  "prefQualifies now hm =
     (case preferredHost hm of
        None \<Rightarrow> False
      | Some p \<Rightarrow> p \<noteq> [] \<and>
          (case map_of (hosts hm) p of
             None \<Rightarrow> False
           | Some info \<Rightarrow> readState now (circuitBreakers hm) p \<noteq> Open
                          \<and> now - lastSeen info < recentHost))"

definition otherHosts :: "int \<Rightarrow> hostmanager \<Rightarrow> (string \<times> hostinfo) list" where
  "otherHosts now hm =
     filter (\<lambda>(h, info). Some h \<noteq> preferredHost hm
                        \<and> readState now (circuitBreakers hm) h \<noteq> Open
                        \<and> \<not> now - lastSeen info > maxHostAge) (hosts hm)"

definition spec_candidates :: "int \<Rightarrow> hostmanager \<Rightarrow> string list" where
  "spec_candidates now hm =
     (case preferredHost hm of
        None \<Rightarrow> []
      | Some p \<Rightarrow> if prefQualifies now hm then [p] else [])
     @ map fst (sort_key (\<lambda>e. responseTime (snd e)) (otherHosts now hm))"

definition stored_open :: "(string \<rightharpoonup> breaker) \<Rightarrow> string \<Rightarrow> bool" where
  "stored_open cb h = (case cb h of None \<Rightarrow> False | Some b \<Rightarrow> state b = Open)"

text \<open>
  Two states reached by operations alone. In the first, 10.0.0.1 is the primary (500 ms),
  10.0.0.2 answered in 10 ms and 10.0.0.3 has failed three times. In the second, the only
  host is the primary and it has failed three times.
\<close>

definition scenario_state :: hostmanager where
  "scenario_state = run_ops
     [(0, Initialize ''10.0.0.1'' [''10.0.0.2'', ''10.0.0.3'']),
      (10, UpdateHostStatus ''10.0.0.3'' False 0),
      (20, UpdateHostStatus ''10.0.0.3'' False 0),
      (30, UpdateHostStatus ''10.0.0.3'' False 0),
      (40, UpdateHostStatus ''10.0.0.1'' True 500),
      (50, UpdateHostStatus ''10.0.0.2'' True 10)] constructor"

definition primary_open_state :: hostmanager where
  "primary_open_state = run_ops
     [(0, Initialize ''10.0.0.1'' []),
      (10, UpdateHostStatus ''10.0.0.1'' False 0),
      (20, UpdateHostStatus ''10.0.0.1'' False 0),
      (30, UpdateHostStatus ''10.0.0.1'' False 0)] constructor"

section \<open>ProxmoxClient.request: one HTTPS request to one host\<close>

text \<open>
  A response body after \<^verbatim>\<open>JSON.parse\<close>. Objects and arrays are opaque (always truthy);
  the scalars are kept apart because \<^verbatim>\<open>if (cached) return cached\<close> tests truthiness.
\<close>

datatype json = JNull | JBool bool | JNum int | JStr string | JObj string

fun truthy :: "json \<Rightarrow> bool" where
  "truthy JNull = False"
| "truthy (JBool b) = b"
| "truthy (JNum n) = (n \<noteq> 0)"
| "truthy (JStr s) = (s \<noteq> [])"
| "truthy (JObj _) = True"

text \<open>
  A thrown \<^verbatim>\<open>Error\<close> with the ad hoc fields the code reads and writes. Only the error
  built for a non-ok response carries \<^verbatim>\<open>statusCode\<close> and \<^verbatim>\<open>responseBody\<close>.
\<close>

record jserror =
  message :: string
  statusCode :: "nat option"
  errcode :: "string option"
  errtype :: "string option"
  errname :: string
  responseBody :: "string option"

text \<open>
  What \<^verbatim>\<open>Promise.race([fetch(url, fetchOptions), timeoutPromise])\<close> settles with: a
  response (status and body text), a rejection of \<^verbatim>\<open>fetch\<close> (message, \<^verbatim>\<open>type\<close>,
  \<^verbatim>\<open>code\<close>, \<^verbatim>\<open>name\<close>), or the timer firing first.
\<close>

datatype fetched =
    Response nat string
  | Rejected string "string option" "string option" string
  | TimedOut

text \<open>Decimal digits of a number, as template literals print it.\<close>

fun show_nat :: "nat \<Rightarrow> string" where
  "show_nat n = (if n < 10 then [char_of (48 + n)] else show_nat (n div 10) @ [char_of (48 + n mod 10)])"

declare show_nat.simps [simp del]

text \<open>
  The options object of a call: the fields the client and the device read
  (\<open>httpMethod\<close> is \<^verbatim>\<open>options.method\<close>).
  \<^verbatim>\<open>options.method || 'GET'\<close> and \<^verbatim>\<open>options.timeout || this._options.timeout || 15000\<close>
  treat an absent field, the empty string and 0 alike.
\<close>

record options =
  httpMethod :: "string option"
  body :: "string option"
  timeout :: "nat option"
  skipCache :: bool
  refreshCache :: bool

definition methodOf :: "options \<Rightarrow> string" where
  "methodOf opts = (case httpMethod opts of None \<Rightarrow> ''GET'' | Some m \<Rightarrow> if m = [] then ''GET'' else m)"

definition timeoutOf :: "options \<Rightarrow> nat" where
  "timeoutOf opts = (case timeout opts of None \<Rightarrow> 15000 | Some t \<Rightarrow> if t = 0 then 15000 else t)"

text \<open>
  \<^verbatim>\<open>request(host, path, options)\<close> from the settled race on: a status outside 200..299
  throws the error with \<^verbatim>\<open>statusCode\<close>; an ok body is parsed, and a body that does not
  parse is returned as text, or \<^verbatim>\<open>null\<close> when empty; a rejection is rethrown, its
  \<^verbatim>\<open>code\<close> set to \<^verbatim>\<open>'ETIMEDOUT'\<close> for a timeout or an abort. \<open>parse\<close> is
  \<^verbatim>\<open>JSON.parse\<close>, \<open>None\<close> when it throws.
\<close>

definition request :: "(string \<Rightarrow> json option) \<Rightarrow> options \<Rightarrow> fetched \<Rightarrow> jserror + json" where
  "request parse opts f =
     (case f of
        Response st raw \<Rightarrow>
          if \<not> (200 \<le> st \<and> st \<le> 299)
          then Inl \<lparr>message = ''API Error '' @ show_nat st @ '': '' @ take 200 raw,
                    statusCode = Some st, errcode = None, errtype = None, errname = ''Error'',
                    responseBody = Some raw\<rparr>
          else (case parse raw of
                  Some j \<Rightarrow> Inr j
                | None \<Rightarrow> Inr (if raw = [] then JNull else JStr raw))
      | Rejected msg ty co nm \<Rightarrow>
          Inl \<lparr>message = msg, statusCode = None,
               errcode = (if ty = Some ''request-timeout'' \<or> nm = ''AbortError''
                          then Some ''ETIMEDOUT'' else co),
               errtype = ty, errname = nm, responseBody = None\<rparr>
      | TimedOut \<Rightarrow>
          Inl \<lparr>message = ''Request timed out after '' @ show_nat (timeoutOf opts) @ ''ms'',
               statusCode = None, errcode = Some ''ETIMEDOUT'',
               errtype = Some ''request-timeout'', errname = ''Error'', responseBody = None\<rparr>)"

section \<open>The cluster device: cache, pending requests, fallback executor\<close>

text \<open>
  The platform side the executor talks to: which capabilities the device has, their
  values, and the message of the last \<^verbatim>\<open>setUnavailable\<close>.
\<close>

datatype capval = CBool bool | CStr string

record bridge =
  capabilities :: "string list"
  capabilityValues :: "string \<rightharpoonup> capval"
  unavailable :: "string option"

definition updateCapability :: "string \<Rightarrow> capval \<Rightarrow> bridge \<Rightarrow> bridge" where
  "updateCapability cid v br =
     (if cid \<notin> set (capabilities br) then br
      else if capabilityValues br cid \<noteq> Some v
           then br\<lparr>capabilityValues := (capabilityValues br)(cid \<mapsto> v)\<rparr>
           else br)"

definition updateConnectionCapabilities :: "string \<Rightarrow> hostmanager \<Rightarrow> bridge \<Rightarrow> bridge" where
  "updateConnectionCapabilities currentHost hm br =
     updateCapability ''status_connected_host'' (CStr currentHost)
       (updateCapability ''alarm_connection_fallback''
          (CBool (Some currentHost \<noteq> primaryHost hm)) br)"

definition setUnavailable :: "string \<Rightarrow> bridge \<Rightarrow> bridge" where
  "setUnavailable msg br = br\<lparr>unavailable := Some msg\<rparr>"

text \<open>\<^verbatim>\<open>this.getCapabilityValue('alarm_connection_fallback')\<close>, read for truthiness.\<close>

definition fallbackActive :: "bridge \<Rightarrow> bool" where
  "fallbackActive br =
     (case capabilityValues br ''alarm_connection_fallback'' of
        None \<Rightarrow> False
      | Some (CBool b) \<Rightarrow> b
      | Some (CStr s) \<Rightarrow> s \<noteq> [])"

text \<open>
  The cache key is \<^verbatim>\<open>`${urlPath}:${JSON.stringify(options)}`\<close>: the path and the options
  themselves. A pending request is the promise stored under the key, named by a number.
  \<open>issued\<close> is not a field of the device: it lists the hosts a request was sent to, in
  order, so that network attempts can be counted.
\<close>

type_synonym cachekey = "string \<times> options"

record cacheentry =
  data :: json
  ts :: int

record device =
  hostManager :: hostmanager
  requestCache :: "cachekey \<rightharpoonup> cacheentry"
  pendingRequests :: "cachekey \<rightharpoonup> nat"
  homey :: bridge
  issued :: "string list"

definition cacheTimeout :: int where "cacheTimeout = 5 * 60 * 1000"

text \<open>
  \<^verbatim>\<open>_getCachedResponse(key)\<close> returns the data or \<^verbatim>\<open>null\<close>; it has no statement that
  writes to \<^verbatim>\<open>requestCache\<close>, so the map after the call is the map before it.
\<close>

definition getCachedResponse ::
  "int \<Rightarrow> cachekey \<Rightarrow> (cachekey \<rightharpoonup> cacheentry) \<Rightarrow> json \<times> (cachekey \<rightharpoonup> cacheentry)" where
  "getCachedResponse now key cache =
     (case cache key of
        None \<Rightarrow> (JNull, cache)
      | Some entry \<Rightarrow> if now - ts entry < cacheTimeout then (data entry, cache) else (JNull, cache))"

definition setCachedResponse ::
  "int \<Rightarrow> cachekey \<Rightarrow> json \<Rightarrow> (cachekey \<rightharpoonup> cacheentry) \<Rightarrow> (cachekey \<rightharpoonup> cacheentry)" where
  "setCachedResponse now key d cache = cache(key \<mapsto> \<lparr>data = d, ts = now\<rparr>)"

text \<open>
  The surroundings of one call: \<^verbatim>\<open>JSON.parse\<close>, the configured host name (used by
  \<^verbatim>\<open>request\<close> when the host argument is falsy), and the network, which for a host, a
  path and the options gives what the race settles with and after how many milliseconds.
\<close>

record env =
  parse :: "string \<Rightarrow> json option"
  hostname :: string
  fetch :: "string \<Rightarrow> string \<Rightarrow> options \<Rightarrow> fetched \<times> nat"

definition send :: "env \<Rightarrow> string \<Rightarrow> string \<Rightarrow> options \<Rightarrow> (jserror + json) \<times> nat" where
  "send e host path opts =
     (case fetch e (if host = [] then hostname e else host) path opts of
        (f, d) \<Rightarrow> (request (parse e) opts f, d))"

text \<open>
  The \<^verbatim>\<open>for (const host of hosts)\<close> loop of \<^verbatim>\<open>_executeApiCallWithFallback\<close>. It ends by
  \<^verbatim>\<open>return result\<close>, by \<^verbatim>\<open>throw error\<close> for a status from 400 to 499, or by running
  out of hosts with \<^verbatim>\<open>lastError\<close>. The clock moves on by the time each request took.
\<close>

datatype loopend = Returned json | Thrown jserror | Exhausted "jserror option"

definition noFailover :: "jserror \<Rightarrow> bool" where
  "noFailover err =
     (case statusCode err of None \<Rightarrow> False | Some c \<Rightarrow> c \<noteq> 0 \<and> 400 \<le> c \<and> c < 500)"

fun tryHosts ::
  "env \<Rightarrow> string \<Rightarrow> options \<Rightarrow> string list \<Rightarrow> int \<Rightarrow> device \<Rightarrow> jserror option
     \<Rightarrow> loopend \<times> int \<times> device" where
  "tryHosts e path opts [] now dev lastError = (Exhausted lastError, now, dev)"
| "tryHosts e path opts (host # rest) now dev lastError =
     (case send e host path opts of (res, d) \<Rightarrow>
        let now' = now + int d; dev1 = dev\<lparr>issued := issued dev @ [host]\<rparr> in
        (case res of
           Inr result \<Rightarrow>
             let hm' = updateHostStatus now' host True 0 (hostManager dev1) in
             (Returned result, now',
              dev1\<lparr>hostManager := hm',
                   homey := updateConnectionCapabilities host hm' (homey dev1)\<rparr>)
         | Inl err \<Rightarrow>
             let dev2 = dev1\<lparr>hostManager := updateHostStatus now' host False 0 (hostManager dev1)\<rparr> in
             if noFailover err then (Thrown err, now', dev2)
             else tryHosts e path opts rest now' dev2 (Some err)))"

definition plainError :: "string \<Rightarrow> jserror" where
  "plainError msg = \<lparr>message = msg, statusCode = None, errcode = None, errtype = None,
     errname = ''Error'', responseBody = None\<rparr>"

text \<open>The body of the \<^verbatim>\<open>requestPromise\<close>: \<open>Inl\<close> is the error it rejects with.\<close>

definition requestPromise ::
  "env \<Rightarrow> string \<Rightarrow> options \<Rightarrow> int \<Rightarrow> device \<Rightarrow> (jserror + json) \<times> int \<times> device" where
  "requestPromise e path opts now dev =
     (case getOrderedHostList now (hostManager dev) of (hostlist, hm1) \<Rightarrow>
        let dev1 = dev\<lparr>hostManager := hm1\<rparr> in
        if hostlist = [] then (Inl (plainError ''No available hosts.''), now, dev1)
        else (case tryHosts e path opts hostlist now dev1 None of
                (Returned result, now', dev') \<Rightarrow> (Inr result, now', dev')
              | (Thrown err, now', dev') \<Rightarrow> (Inl err, now', dev')
              | (Exhausted lastError, now', dev') \<Rightarrow>
                  let br = (if \<not> fallbackActive (homey dev')
                            then setUnavailable
                                   (''Connection failed. Last: '' @
                                      (case lastError of None \<Rightarrow> ''undefined'' | Some err \<Rightarrow> message err))
                                   (homey dev')
                            else homey dev')
                  in (Inl (case lastError of None \<Rightarrow> plainError ''Connection failed''
                                           | Some err \<Rightarrow> err),
                      now', dev'\<lparr>homey := br\<rparr>)))"

text \<open>
  \<^verbatim>\<open>_executeApiCallWithFallback(urlPath, options)\<close>. The call either answers from the
  cache, or returns the promise already stored under the key, or runs its own request.
  \<open>Settled\<close> carries what the caller's promise settles with after the request has run;
  \<open>Attached p\<close> says the caller was handed the pending promise \<open>p\<close>.
\<close>

datatype reply = Settled "jserror + json" | Attached nat

definition isGet :: "options \<Rightarrow> bool" where
  "isGet opts = (methodOf opts = ''GET'')"

definition executeApiCallWithFallback ::
  "env \<Rightarrow> string \<Rightarrow> options \<Rightarrow> int \<Rightarrow> device \<Rightarrow> reply \<times> int \<times> device" where
  "executeApiCallWithFallback e urlPath opts now dev =
     (let cacheKey = (urlPath, opts);
          reads = (isGet opts \<and> \<not> skipCache opts \<and> \<not> refreshCache opts);
          cached = fst (getCachedResponse now cacheKey (requestCache dev))
      in if reads \<and> truthy cached then (Settled (Inr cached), now, dev)
         else (case (if reads then pendingRequests dev cacheKey else None) of
                 Some p \<Rightarrow> (Attached p, now, dev)
               | None \<Rightarrow>
                   (case requestPromise e urlPath opts now dev of (res, now', dev') \<Rightarrow>
                      if isGet opts \<and> \<not> skipCache opts
                      then (Settled res, now',
                            dev'\<lparr>requestCache :=
                                   (case res of
                                      Inl _ \<Rightarrow> requestCache dev'
                                    | Inr r \<Rightarrow> setCachedResponse now' cacheKey r (requestCache dev')),
                                 pendingRequests := (pendingRequests dev')(cacheKey := None)\<rparr>)
                      else (Settled res, now', dev'))))"

text \<open>
  One probe of \<^verbatim>\<open>_performHealthCheck\<close>:
  \<^verbatim>\<open>request(host, '/api2/json/version', { timeout: 5000 })\<close>, then the measured
  \<^verbatim>\<open>Date.now() - start\<close> on success and the default 0 on failure.
\<close>

definition pingOptions :: options where
  "pingOptions = \<lparr>httpMethod = None, body = None, timeout = Some 5000,
     skipCache = False, refreshCache = False\<rparr>"

definition pingHost :: "env \<Rightarrow> string \<Rightarrow> int \<Rightarrow> hostmanager \<Rightarrow> int \<times> hostmanager" where
  "pingHost e host start hm =
     (case send e host ''/api2/json/version'' pingOptions of
        (Inr _, d) \<Rightarrow> (start + int d, updateHostStatus (start + int d) host True (int d) hm)
      | (Inl _, d) \<Rightarrow> (start + int d, updateHostStatus (start + int d) host False 0 hm))"

text \<open>
  For the statements about the executor. \<open>startsRequest\<close> says that a call is answered
  neither from the cache nor by a pending promise, so that it runs its own request.
  \<open>retryable\<close> says that the request to a host fails and the loop goes on to the next
  host. \<open>failedPrefix\<close> is the loop over hosts that all fail in that way: the time, the
  device and \<^verbatim>\<open>lastError\<close> after them. \<open>failureCountOf\<close> and \<open>responseTimeOf\<close> read
  a host entry, the first with 0 for a host without entry.
\<close>

definition startsRequest :: "string \<Rightarrow> options \<Rightarrow> int \<Rightarrow> device \<Rightarrow> bool" where
  "startsRequest urlPath opts now dev =
     (\<not> (isGet opts \<and> \<not> skipCache opts \<and> \<not> refreshCache opts
         \<and> (truthy (fst (getCachedResponse now (urlPath, opts) (requestCache dev)))
              \<or> pendingRequests dev (urlPath, opts) \<noteq> None)))"

fun failedPrefix ::
  "env \<Rightarrow> string \<Rightarrow> options \<Rightarrow> string list \<Rightarrow> int \<Rightarrow> device \<Rightarrow> jserror option
     \<Rightarrow> int \<times> device \<times> jserror option" where
  "failedPrefix e path opts [] now dev lastError = (now, dev, lastError)"
| "failedPrefix e path opts (host # rest) now dev lastError =
     (case send e host path opts of (res, d) \<Rightarrow>
        failedPrefix e path opts rest (now + int d)
          (dev\<lparr>issued := issued dev @ [host],
               hostManager := updateHostStatus (now + int d) host False 0 (hostManager dev)\<rparr>)
          (case res of Inl err \<Rightarrow> Some err | Inr _ \<Rightarrow> lastError))"

definition retryable :: "env \<Rightarrow> string \<Rightarrow> options \<Rightarrow> string \<Rightarrow> bool" where
  "retryable e path opts host =
     (case fst (send e host path opts) of Inl err \<Rightarrow> \<not> noFailover err | Inr _ \<Rightarrow> False)"

definition failureCountOf :: "hostmanager \<Rightarrow> string \<Rightarrow> nat" where
  "failureCountOf hm h = (case map_of (hosts hm) h of None \<Rightarrow> 0 | Some i \<Rightarrow> failureCount i)"

definition responseTimeOf :: "hostmanager \<Rightarrow> string \<Rightarrow> int option" where
  "responseTimeOf hm h = (case map_of (hosts hm) h of None \<Rightarrow> None | Some i \<Rightarrow> Some (responseTime i))"

text \<open>
  Concrete surroundings for evaluating the executor: a manager initialised with a primary
  and one backup host, a device with empty cache and no pending request, a plain GET, and
  networks in which the first host answers with a given status and the second with 200, or
  in which every connection is refused.
\<close>

definition two_hosts :: hostmanager where
  "two_hosts = initialize 0 ''10.0.0.1'' [''10.0.0.2''] constructor"

definition bare_device :: "hostmanager \<Rightarrow> device" where
  "bare_device hm = \<lparr>hostManager = hm, requestCache = Map.empty, pendingRequests = Map.empty,
     homey = \<lparr>capabilities = [''alarm_connection_fallback'', ''status_connected_host''],
               capabilityValues = Map.empty, unavailable = None\<rparr>,
     issued = []\<rparr>"

definition get_options :: options where
  "get_options = \<lparr>httpMethod = None, body = None, timeout = None,
     skipCache = False, refreshCache = False\<rparr>"

definition network :: "(string \<Rightarrow> fetched \<times> nat) \<Rightarrow> env" where
  "network f = \<lparr>parse = (\<lambda>s. if s = [] then None else Some (JObj s)),
     hostname = ''10.0.0.1'', fetch = (\<lambda>h p opts. f h)\<rparr>"

definition first_answers :: "nat \<Rightarrow> string \<Rightarrow> fetched \<times> nat" where
  "first_answers st h =
     (if h = ''10.0.0.1'' then (Response st ''no'', 40) else (Response 200 ''{}'', 15))"

definition refuses :: "string \<Rightarrow> fetched \<times> nat" where
  "refuses h = (Rejected (''connect ECONNREFUSED '' @ h) (Some ''system'') (Some ''ECONNREFUSED'')
                  ''FetchError'', 5)"

text \<open>
  Further surroundings: a network in which every host answers 200 after a given time, a
  GET with \<^verbatim>\<open>refreshCache: true\<close>, a device whose cache holds an entry stored at time 0,
  and a device in which a request for the cluster status is pending as promise 7.
\<close>

definition all_ok :: "nat \<Rightarrow> string \<Rightarrow> fetched \<times> nat" where
  "all_ok d h = (Response 200 ''{}'', d)"

definition refresh_options :: options where
  "refresh_options = get_options\<lparr>refreshCache := True\<rparr>"

definition stale_device :: device where
  "stale_device = (bare_device two_hosts)
     \<lparr>requestCache := [(''/api2/json/cluster/resources'', get_options)
                        \<mapsto> \<lparr>data = JObj ''old'', ts = 0\<rparr>]\<rparr>"

definition busy_device :: "options \<Rightarrow> device" where
  "busy_device opts = (bare_device two_hosts)
     \<lparr>pendingRequests := [(''/api2/json/cluster/status'', opts) \<mapsto> 7]\<rparr>"


text \<open>
  The call as the event loop runs it. What \<^verbatim>\<open>_executeApiCallWithFallback\<close> does before
  its first \<^verbatim>\<open>await\<close> is one step: \<open>decide\<close> is the cache read and the look into
  \<^verbatim>\<open>pendingRequests\<close>, and a call that starts its own request stores its promise with
  \<^verbatim>\<open>this.pendingRequests.set(cacheKey, requestPromise)\<close> (\<open>registerPending\<close>) when the
  call is a GET without \<^verbatim>\<open>skipCache\<close>. What it does once the promise has settled is a
  second step: \<open>settle\<close> is \<^verbatim>\<open>_setCachedResponse\<close> after a success and the
  \<^verbatim>\<open>finally { this.pendingRequests.delete(cacheKey) }\<close>.
\<close>

datatype decision = Hit json | Attach nat | Start

definition decide :: "string \<Rightarrow> options \<Rightarrow> int \<Rightarrow> device \<Rightarrow> decision" where
  "decide urlPath opts now dev =
     (let cacheKey = (urlPath, opts);
          reads = (isGet opts \<and> \<not> skipCache opts \<and> \<not> refreshCache opts);
          cached = fst (getCachedResponse now cacheKey (requestCache dev))
      in if reads \<and> truthy cached then Hit cached
         else (case (if reads then pendingRequests dev cacheKey else None) of
                 Some p \<Rightarrow> Attach p
               | None \<Rightarrow> Start))"

definition registerPending :: "string \<Rightarrow> options \<Rightarrow> nat \<Rightarrow> device \<Rightarrow> device" where
  "registerPending urlPath opts p dev =
     (if isGet opts \<and> \<not> skipCache opts
      then dev\<lparr>pendingRequests := (pendingRequests dev)((urlPath, opts) \<mapsto> p)\<rparr>
      else dev)"

definition settle :: "string \<Rightarrow> options \<Rightarrow> jserror + json \<Rightarrow> int \<Rightarrow> device \<Rightarrow> device" where
  "settle urlPath opts res now dev =
     (if isGet opts \<and> \<not> skipCache opts
      then dev\<lparr>requestCache :=
                 (case res of
                    Inl _ \<Rightarrow> requestCache dev
                  | Inr r \<Rightarrow> setCachedResponse now (urlPath, opts) r (requestCache dev)),
               pendingRequests := (pendingRequests dev)((urlPath, opts) := None)\<rparr>
      else dev)"

text \<open>
  Between the two steps other calls run. A \<open>loop\<close> state holds the clock, the device, the
  requests in flight (each a promise with the key it was started for), the number of the
  next promise, and what the settled promises settled with. An event is a call, or the
  settling of a promise with some outcome; each comes with the time that has passed since
  the event before. What a request does to the host manager and the platform while it is
  in flight is not followed here: it neither reads nor writes the cache or the registry.
  A caller holds either a value from the cache or a promise.
\<close>

record loop =
  clock :: int
  current :: device
  inflight :: "(nat \<times> cachekey) list"
  nextPromise :: nat
  outcomes :: "nat \<rightharpoonup> (jserror + json)"

datatype event = Call string options nat | Settle nat "jserror + json" nat

datatype handle = Value json | Promise nat

definition idle :: "device \<Rightarrow> loop" where
  "idle dev = \<lparr>clock = 0, current = dev\<lparr>pendingRequests := Map.empty\<rparr>, inflight = [],
     nextPromise = 0, outcomes = Map.empty\<rparr>"

definition callHandle :: "string \<Rightarrow> options \<Rightarrow> nat \<Rightarrow> loop \<Rightarrow> handle" where
  "callHandle urlPath opts d L =
     (case decide urlPath opts (clock L + int d) (current L) of
        Hit v \<Rightarrow> Value v
      | Attach p \<Rightarrow> Promise p
      | Start \<Rightarrow> Promise (nextPromise L))"

fun step :: "event \<Rightarrow> loop \<Rightarrow> loop" where
  "step (Call urlPath opts d) L =
     (case decide urlPath opts (clock L + int d) (current L) of
        Start \<Rightarrow>
          L\<lparr>clock := clock L + int d,
            current := registerPending urlPath opts (nextPromise L) (current L),
            inflight := inflight L @ [(nextPromise L, (urlPath, opts))],
            nextPromise := nextPromise L + 1\<rparr>
      | _ \<Rightarrow> L\<lparr>clock := clock L + int d\<rparr>)"
| "step (Settle p res d) L =
     (case map_of (inflight L) p of
        None \<Rightarrow> L\<lparr>clock := clock L + int d\<rparr>
      | Some (urlPath, opts) \<Rightarrow>
          L\<lparr>clock := clock L + int d,
            current := settle urlPath opts res (clock L + int d) (current L),
            inflight := filter (\<lambda>r. fst r \<noteq> p) (inflight L),
            outcomes := (outcomes L)(p \<mapsto> res)\<rparr>)"

fun run_loop :: "event list \<Rightarrow> loop \<Rightarrow> loop" where
  "run_loop [] L = L"
| "run_loop (ev # evs) L = run_loop evs (step ev L)"

definition loop_inv :: "cachekey \<Rightarrow> loop \<Rightarrow> bool" where
  "loop_inv k L =
     (distinct (map fst (inflight L))
      \<and> (\<forall>r\<in>set (inflight L). fst r < nextPromise L)
      \<and> (\<forall>p. ((p, k) \<in> set (inflight L)) = (pendingRequests (current L) k = Some p))
      \<and> ((\<exists>p. (p, k) \<in> set (inflight L)) \<longrightarrow>
            \<not> truthy (fst (getCachedResponse (clock L) k (requestCache (current L)))))
      \<and> (\<forall>p. outcomes L p \<noteq> None \<longrightarrow> p < nextPromise L \<and> p \<notin> fst ` set (inflight L)))"

text \<open>
  States of the loop for evaluating: one plain GET for the cluster status has been called,
  or two calls with \<^verbatim>\<open>refreshCache\<close> have.
\<close>

definition status_key :: "options \<Rightarrow> cachekey" where
  "status_key opts = (''/api2/json/cluster/status'', opts)"

definition one_call :: loop where
  "one_call = run_loop [Call ''/api2/json/cluster/status'' get_options 5]
     (idle (bare_device two_hosts))"

definition two_refresh_calls :: loop where
  "two_refresh_calls = run_loop
     [Call ''/api2/json/cluster/status'' refresh_options 5,
      Call ''/api2/json/cluster/status'' refresh_options 6]
     (idle (bare_device two_hosts))"

section \<open>Circuit breaker: the invariant of the open state\<close>

lemma inv_recordFailure:
  "open_implies_threshold cb \<Longrightarrow> open_implies_threshold (recordFailure now h cb)"
  unfolding open_implies_threshold_def recordFailure_def Let_def
  by (fastforce split: option.splits if_splits)

lemma inv_resetCircuitBreaker:
  "open_implies_threshold cb \<Longrightarrow> open_implies_threshold (resetCircuitBreaker h cb)"
  by (auto simp: open_implies_threshold_def resetCircuitBreaker_def split: option.splits if_splits)

lemma inv_getCircuitBreakerState:
  "open_implies_threshold cb \<Longrightarrow> open_implies_threshold (snd (getCircuitBreakerState now h cb))"
  by (auto simp: open_implies_threshold_def getCircuitBreakerState_def split: option.splits if_splits)

lemma inv_preferredLoop:
  "open_implies_threshold cb \<Longrightarrow> open_implies_threshold (snd (preferredLoop now p hs cb best))"
proof (induction hs arbitrary: cb best)
  case Nil
  then show ?case by simp
next
  case (Cons e hs)
  obtain h i where e: "e = (h, i)" by (cases e)
  obtain st cb' where g: "getCircuitBreakerState now h cb = (st, cb')"
    by (cases "getCircuitBreakerState now h cb")
  have "open_implies_threshold cb'"
    using inv_getCircuitBreakerState[OF Cons.prems, of now h] g by simp
  then show ?case using Cons.IH e g by (simp add: Let_def)
qed

lemma inv_othersLoop:
  "open_implies_threshold cb \<Longrightarrow> open_implies_threshold (snd (othersLoop now p hs cb))"
proof (induction hs arbitrary: cb)
  case Nil
  then show ?case by simp
next
  case (Cons e hs)
  obtain h i where e: "e = (h, i)" by (cases e)
  obtain st cb' where g: "getCircuitBreakerState now h cb = (st, cb')"
    by (cases "getCircuitBreakerState now h cb")
  have "open_implies_threshold cb'"
    using inv_getCircuitBreakerState[OF Cons.prems, of now h] g by simp
  then have "open_implies_threshold (snd (othersLoop now p hs cb'))" by (rule Cons.IH)
  moreover have "open_implies_threshold (snd (othersLoop now p hs cb))"
    using Cons.prems by (rule Cons.IH)
  ultimately show ?case using e g by (cases "othersLoop now p hs cb'") simp
qed

lemma inv_preferredCandidate:
  assumes a: "open_implies_threshold (circuitBreakers hm)"
  shows "open_implies_threshold (snd (preferredCandidate now hm))"
proof (cases "preferredHost hm")
  case None
  then show ?thesis using a by (simp add: preferredCandidate_def)
next
  case (Some p)
  obtain st cb' where g: "getCircuitBreakerState now p (circuitBreakers hm) = (st, cb')"
    by (cases "getCircuitBreakerState now p (circuitBreakers hm)")
  have "open_implies_threshold cb'"
    using inv_getCircuitBreakerState[OF a, of now p] g by simp
  then show ?thesis using a Some g
    by (simp add: preferredCandidate_def split: option.splits)
qed

lemma inv_updatePreferredHost:
  "open_implies_threshold (circuitBreakers hm) \<Longrightarrow>
   open_implies_threshold (circuitBreakers (updatePreferredHost now hm))"
  using inv_preferredLoop[of "circuitBreakers hm" now "primaryHost hm" "hosts hm" None]
  by (auto simp: updatePreferredHost_def Let_def split: option.splits prod.splits if_splits)

lemma inv_updateHostStatus:
  "open_implies_threshold (circuitBreakers hm) \<Longrightarrow>
   open_implies_threshold (circuitBreakers (updateHostStatus now h ok rt hm))"
  by (simp add: updateHostStatus_def Let_def inv_updatePreferredHost
      inv_resetCircuitBreaker inv_recordFailure)

lemma inv_initializeLoop:
  "open_implies_threshold (circuitBreakers hm) \<Longrightarrow>
   open_implies_threshold (circuitBreakers (initializeLoop now p hs hm))"
  by (induction hs arbitrary: hm) (simp_all add: inv_updateHostStatus)

lemma inv_getOrderedHostList:
  assumes a: "open_implies_threshold (circuitBreakers hm)"
  shows "open_implies_threshold (circuitBreakers (snd (getOrderedHostList now hm)))"
proof -
  obtain c1 cb1 where p: "preferredCandidate now hm = (c1, cb1)"
    by (cases "preferredCandidate now hm")
  obtain c2 cb2 where q: "othersLoop now (preferredHost hm) (hosts hm) cb1 = (c2, cb2)"
    by (cases "othersLoop now (preferredHost hm) (hosts hm) cb1")
  have "open_implies_threshold cb1" using inv_preferredCandidate[OF a, of now] p by simp
  then have "open_implies_threshold cb2"
    using inv_othersLoop[of cb1 now "preferredHost hm" "hosts hm"] q by simp
  then show ?thesis using p q by (simp add: getOrderedHostList_def Let_def split: option.splits)
qed

lemma inv_cleanup:
  "open_implies_threshold (circuitBreakers hm) \<Longrightarrow>
   open_implies_threshold (circuitBreakers (cleanup now hm))"
  by (auto simp: open_implies_threshold_def cleanup_def split: if_splits)

lemma inv_apply_op:
  assumes a: "open_implies_threshold (circuitBreakers hm)"
  shows "open_implies_threshold (circuitBreakers (apply_op x hm))"
proof -
  obtain now op where x: "x = (now, op)" by (cases x)
  show ?thesis unfolding x
    by (cases op) (simp_all add: a inv_updateHostStatus inv_getCircuitBreakerState
        inv_resetCircuitBreaker setPrimaryHost_def initialize_def inv_initializeLoop
        inv_getOrderedHostList inv_cleanup)
qed

lemma inv_run_ops:
  "open_implies_threshold (circuitBreakers hm) \<Longrightarrow>
   open_implies_threshold (circuitBreakers (run_ops xs hm))"
  by (induction xs arbitrary: hm) (simp_all add: inv_apply_op)

text \<open>
  Claim C5. In every state a \<^verbatim>\<open>HostManager\<close> reaches from its constructor by any
  sequence of \<^verbatim>\<open>updateHostStatus\<close> (success or failure), breaker state queries,
  \<^verbatim>\<open>setPrimaryHost\<close>, \<^verbatim>\<open>initialize\<close>, \<^verbatim>\<open>getOrderedHostList\<close> and \<^verbatim>\<open>cleanup\<close>, at any
  clock readings, a circuit breaker whose stored state is open has counted at least three
  failures.
\<close>

theorem open_breaker_has_three_failures:
  "circuitBreakers (run_ops ops constructor) h = Some b \<Longrightarrow> state b = Open \<Longrightarrow> 3 \<le> failures b"
proof -
  have "open_implies_threshold (circuitBreakers constructor)"
    by (simp add: open_implies_threshold_def constructor_def)
  then have "open_implies_threshold (circuitBreakers (run_ops ops constructor))"
    by (rule inv_run_ops)
  then show "circuitBreakers (run_ops ops constructor) h = Some b \<Longrightarrow> state b = Open
      \<Longrightarrow> 3 \<le> failures b"
    by (simp add: open_implies_threshold_def)
qed
theorem open_breaker_has_three_failures_witness:
  "circuitBreakers (run_ops [(1, UpdateHostStatus ''a'' False 0), (2, UpdateHostStatus ''a'' False 0),
          (3, UpdateHostStatus ''a'' False 0)] constructor) ''a''
     = Some \<lparr>failures = 3, lastFailureAt = 3, state = Open\<rparr>
   \<and> state \<lparr>failures = 3, lastFailureAt = 3, state = Open\<rparr> = Open
   \<and> (3::nat) \<le> failures \<lparr>failures = 3, lastFailureAt = 3, state = Open\<rparr>"
proof -
  have r: "circuitBreakers (run_ops [(1, UpdateHostStatus ''a'' False 0), (2, UpdateHostStatus ''a'' False 0),
          (3, UpdateHostStatus ''a'' False 0)] constructor) ''a''
     = Some \<lparr>failures = 3, lastFailureAt = 3, state = Open\<rparr>"
    by (simp add: constructor_def updateHostStatus_def recordFailure_def Let_def)
  have s: "state \<lparr>failures = 3, lastFailureAt = 3, state = Open\<rparr> = Open" by simp
  show ?thesis using r s open_breaker_has_three_failures[OF r s] by simp
qed

section \<open>Circuit breaker: the lazy half-open transition\<close>

text \<open>
  Claim C6. A state query on a host whose breaker is stored as open returns half-open, and
  stores it, exactly when the time since the last failure exceeds the open timeout of
  60000 ms; at the timeout or before it the query returns open and changes nothing.
\<close>

theorem half_open_is_computed_at_read_time:
  assumes "cb host = Some b" and "state b = Open"
  shows "getCircuitBreakerState now host cb =
           (if now - lastFailureAt b > 60000
            then (HalfOpen, cb(host \<mapsto> b\<lparr>state := HalfOpen\<rparr>))
            else (Open, cb))"
  using assms by (simp add: getCircuitBreakerState_def breakerOpen_def)

theorem half_open_is_computed_at_read_time_witness:
  "[''10.0.0.3'' \<mapsto> \<lparr>failures = 3, lastFailureAt = 1000, state = Open\<rparr>] ''10.0.0.3''
      = Some \<lparr>failures = 3, lastFailureAt = 1000, state = Open\<rparr>
   \<and> state \<lparr>failures = 3, lastFailureAt = 1000, state = Open\<rparr> = Open
   \<and> fst (getCircuitBreakerState 61001 ''10.0.0.3''
        [''10.0.0.3'' \<mapsto> \<lparr>failures = 3, lastFailureAt = 1000, state = Open\<rparr>]) = HalfOpen
   \<and> snd (getCircuitBreakerState 61001 ''10.0.0.3''
        [''10.0.0.3'' \<mapsto> \<lparr>failures = 3, lastFailureAt = 1000, state = Open\<rparr>]) ''10.0.0.3''
      = Some \<lparr>failures = 3, lastFailureAt = 1000, state = HalfOpen\<rparr>
   \<and> getCircuitBreakerState 61000 ''10.0.0.3''
        [''10.0.0.3'' \<mapsto> \<lparr>failures = 3, lastFailureAt = 1000, state = Open\<rparr>]
      = (Open, [''10.0.0.3'' \<mapsto> \<lparr>failures = 3, lastFailureAt = 1000, state = Open\<rparr>])"
  using half_open_is_computed_at_read_time
          [of "[''10.0.0.3'' \<mapsto> \<lparr>failures = 3, lastFailureAt = 1000, state = Open\<rparr>]"
              "''10.0.0.3''" "\<lparr>failures = 3, lastFailureAt = 1000, state = Open\<rparr>" 61001]
        half_open_is_computed_at_read_time
          [of "[''10.0.0.3'' \<mapsto> \<lparr>failures = 3, lastFailureAt = 1000, state = Open\<rparr>]"
              "''10.0.0.3''" "\<lparr>failures = 3, lastFailureAt = 1000, state = Open\<rparr>" 61000]
  by simp

section \<open>Circuit breaker: tripping\<close>

lemma failure_on_open_breaker_only_counts:
  assumes b: "circuitBreakers hm h = Some b" and o: "state b = Open"
    and i: "map_of (hosts hm) h = Some i" and u: "status i = Unhealthy"
  shows "updateHostStatus t h False r hm
     = hm\<lparr>hosts := AList.update h (i\<lparr>failureCount := failureCount i + 1, lastFailure := Some t\<rparr>)
               (hosts hm),
           circuitBreakers := (circuitBreakers hm)
               (h \<mapsto> b\<lparr>failures := failures b + 1, lastFailureAt := t\<rparr>)\<rparr>"
proof -
  have "i\<lparr>failureCount := failureCount i + 1, status := Unhealthy, lastFailure := Some t\<rparr>
      = i\<lparr>failureCount := failureCount i + 1, lastFailure := Some t\<rparr>"
    using u by (cases i) simp
  then show ?thesis
    using b o i by (simp add: updateHostStatus_def recordFailure_def Let_def)
qed

lemma failure_breaker:
  "circuitBreakers (updateHostStatus t h False r hm) = recordFailure t h (circuitBreakers hm)"
  by (simp add: updateHostStatus_def Let_def)

lemma failure_host_entry:
  "\<exists>i. map_of (hosts (updateHostStatus t h False r hm)) h = Some i \<and> status i = Unhealthy"
  by (simp add: updateHostStatus_def Let_def update_conv')

lemma recordFailure_fresh:
  "cb h = None \<or> (\<exists>b. cb h = Some b \<and> failures b = 0 \<and> state b = Closed) \<Longrightarrow>
   \<exists>b. recordFailure t h cb h = Some b \<and> failures b = 1 \<and> state b = Closed \<and> lastFailureAt b = t"
  by (auto simp: recordFailure_def Let_def)

lemma recordFailure_counts:
  "cb h = Some b \<Longrightarrow>
   \<exists>b'. recordFailure t h cb h = Some b' \<and> failures b' = failures b + 1 \<and> lastFailureAt b' = t
      \<and> state b' = (if 3 \<le> failures b + 1 then Open else state b)"
  by (auto simp: recordFailure_def Let_def)

text \<open>
  Claim C4. Starting from a fresh breaker, the first and the second recorded failure
  leave the breaker closed, the third opens it with three failures counted, and a fourth
  changes nothing in the whole state but the counts and stamps: the breaker stays open
  with four failures and the new time of failure, and the host entry has one more failure
  and the new time of failure.
\<close>

theorem three_failures_open_fourth_only_counts:
  assumes fresh: "fresh_breaker hm h"
    and s1: "s1 = updateHostStatus t1 h False r1 hm"
    and s2: "s2 = updateHostStatus t2 h False r2 s1"
    and s3: "s3 = updateHostStatus t3 h False r3 s2"
  shows "\<exists>b1 b2 b3 i3.
     circuitBreakers s1 h = Some b1 \<and> state b1 = Closed \<and> failures b1 = 1
   \<and> circuitBreakers s2 h = Some b2 \<and> state b2 = Closed \<and> failures b2 = 2
   \<and> circuitBreakers s3 h = Some b3 \<and> state b3 = Open \<and> failures b3 = 3
   \<and> map_of (hosts s3) h = Some i3
   \<and> updateHostStatus t4 h False r4 s3
     = s3\<lparr>hosts := AList.update h (i3\<lparr>failureCount := failureCount i3 + 1, lastFailure := Some t4\<rparr>)
               (hosts s3),
          circuitBreakers := (circuitBreakers s3)(h \<mapsto> b3\<lparr>failures := 4, lastFailureAt := t4\<rparr>)\<rparr>"
proof -
  have f: "circuitBreakers hm h = None
      \<or> (\<exists>b. circuitBreakers hm h = Some b \<and> failures b = 0 \<and> state b = Closed)"
    using fresh by (auto simp: fresh_breaker_def split: option.splits)
  obtain b1 where b1: "circuitBreakers s1 h = Some b1" "failures b1 = 1" "state b1 = Closed"
    using recordFailure_fresh[of "circuitBreakers hm" h t1] f by (auto simp: s1 failure_breaker)
  obtain b2 where b2: "circuitBreakers s2 h = Some b2" "failures b2 = 2" "state b2 = Closed"
    using recordFailure_counts[of "circuitBreakers s1" h b1 t2] b1 by (auto simp: s2 failure_breaker)
  obtain b3 where b3: "circuitBreakers s3 h = Some b3" "failures b3 = 3" "state b3 = Open"
    using recordFailure_counts[of "circuitBreakers s2" h b2 t3] b2 by (auto simp: s3 failure_breaker)
  obtain i3 where i3: "map_of (hosts s3) h = Some i3" "status i3 = Unhealthy"
    using failure_host_entry[of t3 h r3 s2] by (auto simp: s3)
  have "updateHostStatus t4 h False r4 s3
     = s3\<lparr>hosts := AList.update h (i3\<lparr>failureCount := failureCount i3 + 1, lastFailure := Some t4\<rparr>)
               (hosts s3),
          circuitBreakers := (circuitBreakers s3)(h \<mapsto> b3\<lparr>failures := 4, lastFailureAt := t4\<rparr>)\<rparr>"
    using failure_on_open_breaker_only_counts[OF b3(1) b3(3) i3, of t4 r4] b3(2) by simp
  then show ?thesis using b1 b2 b3 i3 by blast
qed

theorem three_failures_open_fourth_only_counts_witness:
  "fresh_breaker constructor ''10.0.0.2''
   \<and> (\<exists>b3. circuitBreakers (updateHostStatus 30 ''10.0.0.2'' False 0
        (updateHostStatus 20 ''10.0.0.2'' False 0
          (updateHostStatus 10 ''10.0.0.2'' False 0 constructor))) ''10.0.0.2'' = Some b3
       \<and> state b3 = Open \<and> failures b3 = 3)"
proof -
  have f: "fresh_breaker constructor ''10.0.0.2''"
    by (simp add: fresh_breaker_def constructor_def)
  from three_failures_open_fourth_only_counts[OF f refl refl refl, of 10 0 20 0 30 0 40 0]
  show ?thesis using f by blast
qed

section \<open>Preferred host: first host of best score\<close>

lemma readState_after_query:
  "readState now (snd (getCircuitBreakerState now h' cb)) h = readState now cb h"
  by (auto simp: readState_def getCircuitBreakerState_def split: option.splits)

lemma preferredLoop_fold:
  "(\<And>h. readState now cb h = readState now cb0 h) \<Longrightarrow>
   fst (preferredLoop now p hs cb best) = foldl pick best (scoredOf now p cb0 hs)"
proof (induction hs arbitrary: cb best)
  case Nil
  then show ?case by (simp add: scoredOf_def)
next
  case (Cons e hs)
  obtain h i where e: "e = (h, i)" by (cases e)
  obtain st cb' where g: "getCircuitBreakerState now h cb = (st, cb')"
    by (cases "getCircuitBreakerState now h cb")
  have st: "st = readState now cb0 h" using g Cons.prems[of h] by (simp add: readState_def)
  have v: "\<And>x. readState now cb' x = readState now cb0 x"
    using readState_after_query[of now h cb] g Cons.prems by simp
  have ih: "\<And>b. fst (preferredLoop now p hs cb' b) = foldl pick b (scoredOf now p cb0 hs)"
    using Cons.IH[OF v] by simp
  show ?case
    using e g st ih by (cases best) (auto simp: scoredOf_def Let_def)
qed

lemma preferredLoop_view:
  "readState now (snd (preferredLoop now p hs cb best)) x = readState now cb x"
proof (induction hs arbitrary: cb best)
  case Nil
  then show ?case by simp
next
  case (Cons e hs)
  obtain h i where e: "e = (h, i)" by (cases e)
  obtain st cb' where g: "getCircuitBreakerState now h cb = (st, cb')"
    by (cases "getCircuitBreakerState now h cb")
  have v: "readState now cb' x = readState now cb x"
    using readState_after_query[of now h cb x] g by simp
  show ?case using e g v Cons.IH[of cb'] by (simp add: Let_def)
qed

lemma foldl_pick_first_max:
  "S \<noteq> [] \<Longrightarrow>
   \<exists>k<length S. foldl pick None S = Some (S ! k)
      \<and> (\<forall>j<length S. snd (S ! j) \<le> snd (S ! k)) \<and> (\<forall>j<k. snd (S ! j) < snd (S ! k))"
proof (induction S rule: rev_induct)
  case Nil
  then show ?case by simp
next
  case (snoc c S)
  show ?case
  proof (cases "S = []")
    case True
    then show ?thesis by simp
  next
    case False
    from snoc.IH[OF False] obtain k where k: "k < length S" "foldl pick None S = Some (S ! k)"
      "\<forall>j<length S. snd (S ! j) \<le> snd (S ! k)" "\<forall>j<k. snd (S ! j) < snd (S ! k)" by blast
    show ?thesis
    proof (cases "snd c > snd (S ! k)")
      case True
      have "foldl pick None (S @ [c]) = Some ((S @ [c]) ! length S)" using k(2) True by simp
      moreover have "\<forall>j<length (S @ [c]). snd ((S @ [c]) ! j) \<le> snd ((S @ [c]) ! length S)"
        using k(3) True by (auto simp: nth_append less_Suc_eq)
      moreover have "\<forall>j<length S. snd ((S @ [c]) ! j) < snd ((S @ [c]) ! length S)"
        using k(3) True by (auto simp: nth_append)
      ultimately show ?thesis by (intro exI[of _ "length S"]) simp
    next
      case False
      have "foldl pick None (S @ [c]) = Some ((S @ [c]) ! k)" using k(1,2) False by (simp add: nth_append)
      moreover have "\<forall>j<length (S @ [c]). snd ((S @ [c]) ! j) \<le> snd ((S @ [c]) ! k)"
        using k(1,3) False by (auto simp: nth_append less_Suc_eq)
      moreover have "\<forall>j<k. snd ((S @ [c]) ! j) < snd ((S @ [c]) ! k)"
        using k(1,4) by (auto simp: nth_append)
      ultimately show ?thesis using k(1) by (intro exI[of _ k]) simp
    qed
  qed
qed

lemma scored_hosts_nonempty:
  "\<forall>e\<in>set hs. fst e \<noteq> [] \<Longrightarrow> \<forall>c\<in>set (scoredOf now p cb hs). fst c \<noteq> []"
  by (auto simp: scoredOf_def)

lemma updatePreferredHost_pick:
  "preferredHost (updatePreferredHost now hm) =
     (case foldl pick None (scored now hm) of
        None \<Rightarrow> preferredHost hm
      | Some (b, _) \<Rightarrow> if b \<noteq> [] then Some b else preferredHost hm)"
proof -
  obtain best cb' where l: "preferredLoop now (primaryHost hm) (hosts hm) (circuitBreakers hm) None = (best, cb')"
    by (cases "preferredLoop now (primaryHost hm) (hosts hm) (circuitBreakers hm) None")
  have "best = foldl pick None (scored now hm)"
    using preferredLoop_fold[of now "circuitBreakers hm" "circuitBreakers hm" "primaryHost hm" "hosts hm" None] l
    by (simp add: scored_def)
  then show ?thesis using l
    by (auto simp: updatePreferredHost_def Let_def split: option.splits)
qed

lemma scored_updatePreferredHost: "scored now (updatePreferredHost now hm) = scored now hm"
proof -
  obtain best cb' where l: "preferredLoop now (primaryHost hm) (hosts hm) (circuitBreakers hm) None = (best, cb')"
    by (cases "preferredLoop now (primaryHost hm) (hosts hm) (circuitBreakers hm) None")
  have v: "\<And>x. readState now cb' x = readState now (circuitBreakers hm) x"
    using preferredLoop_view[of now "primaryHost hm" "hosts hm" "circuitBreakers hm" None] l by simp
  have h: "hosts (updatePreferredHost now hm) = hosts hm"
    "primaryHost (updatePreferredHost now hm) = primaryHost hm"
    "circuitBreakers (updatePreferredHost now hm) = cb'"
    using l by (auto simp: updatePreferredHost_def Let_def split: option.splits)
  show ?thesis by (simp add: scored_def scoredOf_def h v)
qed

lemma updatePreferredHost_first_best:
  assumes names: "\<forall>e\<in>set (hosts hm). fst e \<noteq> []"
  shows "(scored now hm = [] \<longrightarrow> preferredHost (updatePreferredHost now hm) = preferredHost hm)
       \<and> (scored now hm \<noteq> [] \<longrightarrow>
            (\<exists>k<length (scored now hm).
               preferredHost (updatePreferredHost now hm) = Some (fst (scored now hm ! k))
             \<and> (\<forall>j<length (scored now hm). snd (scored now hm ! j) \<le> snd (scored now hm ! k))
             \<and> (\<forall>j<k. snd (scored now hm ! j) < snd (scored now hm ! k))))"
proof (intro conjI impI)
  assume "scored now hm = []"
  then show "preferredHost (updatePreferredHost now hm) = preferredHost hm"
    by (simp add: updatePreferredHost_pick)
next
  assume ne: "scored now hm \<noteq> []"
  from foldl_pick_first_max[OF ne] obtain k where k: "k < length (scored now hm)"
    "foldl pick None (scored now hm) = Some (scored now hm ! k)"
    "\<forall>j<length (scored now hm). snd (scored now hm ! j) \<le> snd (scored now hm ! k)"
    "\<forall>j<k. snd (scored now hm ! j) < snd (scored now hm ! k)" by blast
  have "scored now hm ! k \<in> set (scored now hm)" using k(1) by simp
  moreover have "\<forall>c\<in>set (scored now hm). fst c \<noteq> []"
    using scored_hosts_nonempty[OF names, of now "primaryHost hm" "circuitBreakers hm"]
    by (simp add: scored_def)
  ultimately have "fst (scored now hm ! k) \<noteq> []" by blast
  then have "preferredHost (updatePreferredHost now hm) = Some (fst (scored now hm ! k))"
    using k(2) by (cases "scored now hm ! k") (simp add: updatePreferredHost_pick)
  then show "\<exists>k<length (scored now hm).
               preferredHost (updatePreferredHost now hm) = Some (fst (scored now hm ! k))
             \<and> (\<forall>j<length (scored now hm). snd (scored now hm ! j) \<le> snd (scored now hm ! k))
             \<and> (\<forall>j<k. snd (scored now hm ! j) < snd (scored now hm ! k))"
    using k by blast
qed


text \<open>
  The state \<^verbatim>\<open>updateHostStatus\<close> has built for a success when it calls
  \<^verbatim>\<open>_updatePreferredHost\<close>.
\<close>

lemma success_then_updatePreferredHost:
  "\<exists>i. updateHostStatus now h True rt hm
     = updatePreferredHost now
         (hm\<lparr>hosts := AList.update h i (hosts hm),
             circuitBreakers := resetCircuitBreaker h (circuitBreakers hm)\<rparr>)
     \<and> lastSeen i = now \<and> responseTime i = rt \<and> failureCount i = 0 \<and> status i = Healthy"
proof -
  define i where "i = (case map_of (hosts hm) h of
                         None \<Rightarrow> \<lparr>lastSeen = 0, responseTime = 0, failureCount = 0,
                                   status = Unknown, lastFailure = None\<rparr>
                       | Some i \<Rightarrow> i)
                      \<lparr>lastSeen := now, status := Healthy, responseTime := rt, failureCount := 0\<rparr>"
  have "updateHostStatus now h True rt hm
     = updatePreferredHost now
         (hm\<lparr>hosts := AList.update h i (hosts hm),
             circuitBreakers := resetCircuitBreaker h (circuitBreakers hm)\<rparr>)"
    by (simp add: updateHostStatus_def Let_def i_def)
  moreover have "lastSeen i = now \<and> responseTime i = rt \<and> failureCount i = 0 \<and> status i = Healthy"
    by (simp add: i_def)
  ultimately show ?thesis by blast
qed

lemma readState_reset: "readState now (resetCircuitBreaker h cb) h = Closed"
  by (cases "cb h") (simp_all add: readState_def resetCircuitBreaker_def getCircuitBreakerState_def)

lemma member_scoredOf:
  "(h, i) \<in> set hs \<Longrightarrow> readState now cb h \<noteq> Open \<Longrightarrow> \<not> now - lastSeen i > maxHostAge \<Longrightarrow>
   (h, score p h i) \<in> set (scoredOf now p cb hs)"
  by (force simp: scoredOf_def)

lemma first_best_among_scored:
  assumes names: "\<forall>e\<in>set (hosts hm). fst e \<noteq> []" and h: "h \<noteq> []"
    and post: "hm' = updateHostStatus now h True rt hm"
  shows "(scored now hm = [] \<longrightarrow> preferredHost (updatePreferredHost now hm) = preferredHost hm)
       \<and> (scored now hm \<noteq> [] \<longrightarrow>
            (\<exists>k<length (scored now hm).
               preferredHost (updatePreferredHost now hm) = Some (fst (scored now hm ! k))
             \<and> (\<forall>j<length (scored now hm). snd (scored now hm ! j) \<le> snd (scored now hm ! k))
             \<and> (\<forall>j<k. snd (scored now hm ! j) < snd (scored now hm ! k))))
       \<and> (\<exists>k<length (scored now hm').
               preferredHost hm' = Some (fst (scored now hm' ! k))
             \<and> (\<forall>j<length (scored now hm'). snd (scored now hm' ! j) \<le> snd (scored now hm' ! k))
             \<and> (\<forall>j<k. snd (scored now hm' ! j) < snd (scored now hm' ! k)))"
proof -
  obtain i where i: "hm' = updatePreferredHost now
         (hm\<lparr>hosts := AList.update h i (hosts hm),
             circuitBreakers := resetCircuitBreaker h (circuitBreakers hm)\<rparr>)"
      "lastSeen i = now"
    using success_then_updatePreferredHost[of now h rt hm] post by auto
  define hm1 where "hm1 = hm\<lparr>hosts := AList.update h i (hosts hm),
             circuitBreakers := resetCircuitBreaker h (circuitBreakers hm)\<rparr>"
  have hm': "hm' = updatePreferredHost now hm1" using i(1) by (simp add: hm1_def)
  have sc: "scored now hm' = scored now hm1" by (simp add: hm' scored_updatePreferredHost)
  have "fst ` set (hosts hm1) = {h} \<union> fst ` set (hosts hm)" by (simp add: hm1_def dom_update)
  then have names1: "\<forall>e\<in>set (hosts hm1). fst e \<noteq> []" using names h by force
  have "map_of (hosts hm1) h = Some i" by (simp add: hm1_def update_conv')
  then have "(h, i) \<in> set (hosts hm1)" by (rule map_of_SomeD)
  moreover have "readState now (circuitBreakers hm1) h \<noteq> Open" by (simp add: hm1_def readState_reset)
  moreover have "\<not> now - lastSeen i > maxHostAge" by (simp add: i(2) maxHostAge_def)
  ultimately have "(h, score (primaryHost hm1) h i) \<in> set (scored now hm1)"
    unfolding scored_def by (rule member_scoredOf)
  then have ne: "scored now hm1 \<noteq> []" by auto
  have "\<exists>k<length (scored now hm1).
               preferredHost (updatePreferredHost now hm1) = Some (fst (scored now hm1 ! k))
             \<and> (\<forall>j<length (scored now hm1). snd (scored now hm1 ! j) \<le> snd (scored now hm1 ! k))
             \<and> (\<forall>j<k. snd (scored now hm1 ! j) < snd (scored now hm1 ! k))"
    using updatePreferredHost_first_best[OF names1, of now] ne by blast
  then have "\<exists>k<length (scored now hm').
               preferredHost hm' = Some (fst (scored now hm' ! k))
             \<and> (\<forall>j<length (scored now hm'). snd (scored now hm' ! j) \<le> snd (scored now hm' ! k))
             \<and> (\<forall>j<k. snd (scored now hm' ! j) < snd (scored now hm' ! k))"
    by (simp add: hm' scored_updatePreferredHost)
  then show ?thesis using updatePreferredHost_first_best[OF names, of now] by blast
qed

lemma readState_blocks: "(readState now cb h \<noteq> Open) = (\<not> breaker_blocks now cb h)"
  by (cases "cb h")
     (auto simp: readState_def breaker_blocks_def getCircuitBreakerState_def breakerOpen_def)

lemma scored_eligible: "scored now hm = eligible now hm"
  by (simp add: scored_def scoredOf_def eligible_def readState_blocks score_def maxHostAge_def
      not_less)

text \<open>
  Claim C3, as amended. \<^verbatim>\<open>_updatePreferredHost\<close> scores every host that is not held back
  by an open breaker (stored as open, last failure at most 60000 ms ago) and that was seen
  at most \<^verbatim>\<open>maxHostAge\<close>, 300000 ms, ago, with 1000 minus its response time minus 100 per
  failure, plus 50 for the primary. The preferred host becomes the first host in iteration
  order whose score no other host beats; when no host is scored it stays as it was. The
  function runs at the end of every recorded success, after which at least the host just
  recorded is scored. Host addresses are taken to be non-empty strings.
\<close>

theorem preferred_host_is_first_best_score:
  assumes names: "\<forall>e\<in>set (hosts hm). fst e \<noteq> []" and h: "h \<noteq> []"
    and post: "hm' = updateHostStatus now h True rt hm"
  shows "(eligible now hm = [] \<longrightarrow> preferredHost (updatePreferredHost now hm) = preferredHost hm)
       \<and> (eligible now hm \<noteq> [] \<longrightarrow>
            (\<exists>k<length (eligible now hm).
               preferredHost (updatePreferredHost now hm) = Some (fst (eligible now hm ! k))
             \<and> (\<forall>j<length (eligible now hm). snd (eligible now hm ! j) \<le> snd (eligible now hm ! k))
             \<and> (\<forall>j<k. snd (eligible now hm ! j) < snd (eligible now hm ! k))))
       \<and> (\<exists>k<length (eligible now hm').
               preferredHost hm' = Some (fst (eligible now hm' ! k))
             \<and> (\<forall>j<length (eligible now hm'). snd (eligible now hm' ! j) \<le> snd (eligible now hm' ! k))
             \<and> (\<forall>j<k. snd (eligible now hm' ! j) < snd (eligible now hm' ! k)))"
  using first_best_among_scored[OF names h post] unfolding scored_eligible .

text \<open>
  Two runs of it. The first is the repository's own test: 990 for the backup beats 550 for
  the primary. In the second the backup with the open breaker would score 700 against the
  primary's 550, but it is not scored and the primary stays preferred.
\<close>

theorem preferred_host_is_first_best_score_witness:
  "list_all (\<lambda>e. fst e \<noteq> []) (hosts p1_state) \<and> ''primary.local'' \<noteq> []
   \<and> eligible 30 (updateHostStatus 30 ''primary.local'' True 500 p1_state)
       = [(''primary.local'', 550), (''backup.local'', 990)]
   \<and> preferredHost (updateHostStatus 30 ''primary.local'' True 500 p1_state) = Some ''backup.local''
   \<and> list_all (\<lambda>e. fst e \<noteq> []) (hosts open_backup_state)
   \<and> circuitBreakers open_backup_state ''10.0.0.3''
       = Some \<lparr>failures = 3, lastFailureAt = 30, state = Open\<rparr>
   \<and> map_of (hosts open_backup_state) ''10.0.0.3''
       = Some \<lparr>lastSeen = 0, responseTime = 0, failureCount = 3, status = Unhealthy,
               lastFailure = Some 30\<rparr>
   \<and> eligible 40 (updateHostStatus 40 ''10.0.0.1'' True 500 open_backup_state)
       = [(''10.0.0.1'', 550)]
   \<and> preferredHost (updateHostStatus 40 ''10.0.0.1'' True 500 open_backup_state) = Some ''10.0.0.1''"
proof -
  have n': "list_all (\<lambda>e. fst e \<noteq> []) (hosts p1_state)" by code_simp
  then have n: "\<forall>e\<in>set (hosts p1_state). fst e \<noteq> []" by (simp add: list_all_iff)
  have h: "''primary.local'' \<noteq> []" by simp
  have sc: "eligible 30 (updateHostStatus 30 ''primary.local'' True 500 p1_state)
       = [(''primary.local'', 550), (''backup.local'', 990)]" by code_simp
  from preferred_host_is_first_best_score[OF n h refl, of 30 500]
  obtain k where k: "k < length (eligible 30 (updateHostStatus 30 ''primary.local'' True 500 p1_state))"
    "preferredHost (updateHostStatus 30 ''primary.local'' True 500 p1_state)
       = Some (fst (eligible 30 (updateHostStatus 30 ''primary.local'' True 500 p1_state) ! k))"
    "\<forall>j<length (eligible 30 (updateHostStatus 30 ''primary.local'' True 500 p1_state)).
        snd (eligible 30 (updateHostStatus 30 ''primary.local'' True 500 p1_state) ! j)
        \<le> snd (eligible 30 (updateHostStatus 30 ''primary.local'' True 500 p1_state) ! k)"
    by blast
  have "k = 1"
  proof (rule ccontr)
    assume "k \<noteq> 1"
    then have "k = 0" using k(1) by (simp add: sc)
    then show False using k(3) by (auto simp: sc)
  qed
  then have first: "preferredHost (updateHostStatus 30 ''primary.local'' True 500 p1_state)
      = Some ''backup.local''"
    using k(2) by (simp add: sc)
  have m': "list_all (\<lambda>e. fst e \<noteq> []) (hosts open_backup_state)" by code_simp
  then have m: "\<forall>e\<in>set (hosts open_backup_state). fst e \<noteq> []" by (simp add: list_all_iff)
  have g: "''10.0.0.1'' \<noteq> []" by simp
  have b: "circuitBreakers open_backup_state ''10.0.0.3''
       = Some \<lparr>failures = 3, lastFailureAt = 30, state = Open\<rparr>" by code_simp
  have e: "map_of (hosts open_backup_state) ''10.0.0.3''
       = Some \<lparr>lastSeen = 0, responseTime = 0, failureCount = 3, status = Unhealthy,
               lastFailure = Some 30\<rparr>" by code_simp
  have el: "eligible 40 (updateHostStatus 40 ''10.0.0.1'' True 500 open_backup_state)
       = [(''10.0.0.1'', 550)]" by code_simp
  from preferred_host_is_first_best_score[OF m g refl, of 40 500]
  obtain q where q: "q < length (eligible 40 (updateHostStatus 40 ''10.0.0.1'' True 500 open_backup_state))"
    "preferredHost (updateHostStatus 40 ''10.0.0.1'' True 500 open_backup_state)
       = Some (fst (eligible 40 (updateHostStatus 40 ''10.0.0.1'' True 500 open_backup_state) ! q))"
    by blast
  then have second: "preferredHost (updateHostStatus 40 ''10.0.0.1'' True 500 open_backup_state)
      = Some ''10.0.0.1''"
    by (simp add: el)
  show ?thesis using n' sc first m' b e el second by simp
qed

text \<open>
  The claim as it was worded scores the hosts seen recently, which the configuration
  calls two minutes (\<^verbatim>\<open>recentHost\<close>). The backup last seen at time 1 is scored at time
  200000 all the same, and takes the preference from the primary.
\<close>

theorem aged_host_is_scored_counterexample:
  "map_option lastSeen (map_of (hosts aged_backup_state) ''backup.local'') = Some 1
   \<and> \<not> 200000 - 1 < recentHost
   \<and> preferredHost aged_backup_state = Some ''primary.local''
   \<and> eligible 200000 (updateHostStatus 200000 ''primary.local'' True 500 aged_backup_state)
       = [(''primary.local'', 550), (''backup.local'', 990)]
   \<and> preferredHost (updateHostStatus 200000 ''primary.local'' True 500 aged_backup_state)
       = Some ''backup.local''"
  by code_simp

section \<open>The ordered host list\<close>

lemma stored_open_query_other:
  "\<not> stored_open cb x \<Longrightarrow> \<not> stored_open (snd (getCircuitBreakerState now h cb)) x"
  by (auto simp: stored_open_def getCircuitBreakerState_def split: option.splits if_splits)

lemma stored_open_query_self:
  "fst (getCircuitBreakerState now h cb) \<noteq> Open \<Longrightarrow>
   \<not> stored_open (snd (getCircuitBreakerState now h cb)) h"
  by (auto simp: stored_open_def getCircuitBreakerState_def split: option.splits if_splits)

lemma othersLoop_spec:
  "(\<And>h. readState now cb h = readState now cb0 h) \<Longrightarrow>
   fst (othersLoop now pref hs cb) =
     map (\<lambda>(h, i). (h, - responseTime i))
       (filter (\<lambda>(h, info). Some h \<noteq> pref \<and> readState now cb0 h \<noteq> Open
                           \<and> \<not> now - lastSeen info > maxHostAge) hs)"
proof (induction hs arbitrary: cb)
  case Nil
  then show ?case by simp
next
  case (Cons e hs)
  obtain h i where e: "e = (h, i)" by (cases e)
  obtain st cb' where g: "getCircuitBreakerState now h cb = (st, cb')"
    by (cases "getCircuitBreakerState now h cb")
  have st: "st = readState now cb0 h" using g Cons.prems[of h] by (simp add: readState_def)
  have v: "\<And>x. readState now cb' x = readState now cb0 x"
    using readState_after_query[of now h cb] g Cons.prems by simp
  show ?case
    using e g st Cons.IH[OF v] Cons.IH[OF Cons.prems]
    by (cases "othersLoop now pref hs cb'") auto
qed

lemma othersLoop_view:
  "readState now (snd (othersLoop now pref hs cb)) x = readState now cb x"
proof (induction hs arbitrary: cb)
  case Nil
  then show ?case by simp
next
  case (Cons e hs)
  obtain h i where e: "e = (h, i)" by (cases e)
  obtain st cb' where g: "getCircuitBreakerState now h cb = (st, cb')"
    by (cases "getCircuitBreakerState now h cb")
  have v: "readState now cb' x = readState now cb x"
    using readState_after_query[of now h cb x] g by simp
  show ?case using e g v Cons.IH[of cb'] Cons.IH[of cb]
    by (cases "othersLoop now pref hs cb'") auto
qed

lemma othersLoop_keeps_not_open:
  "\<not> stored_open cb x \<Longrightarrow> \<not> stored_open (snd (othersLoop now pref hs cb)) x"
proof (induction hs arbitrary: cb)
  case Nil
  then show ?case by simp
next
  case (Cons e hs)
  obtain h i where e: "e = (h, i)" by (cases e)
  obtain st cb' where g: "getCircuitBreakerState now h cb = (st, cb')"
    by (cases "getCircuitBreakerState now h cb")
  have "\<not> stored_open cb' x" using stored_open_query_other[OF Cons.prems, of now h] g by simp
  then have "\<not> stored_open (snd (othersLoop now pref hs cb')) x" by (rule Cons.IH)
  moreover have "\<not> stored_open (snd (othersLoop now pref hs cb)) x" using Cons.prems by (rule Cons.IH)
  ultimately show ?case using e g by (cases "othersLoop now pref hs cb'") auto
qed

lemma othersLoop_candidates_not_open:
  "c \<in> set (fst (othersLoop now pref hs cb)) \<Longrightarrow>
   \<not> stored_open (snd (othersLoop now pref hs cb)) (fst c)"
proof (induction hs arbitrary: cb)
  case Nil
  then show ?case by simp
next
  case (Cons e hs)
  obtain h i where e: "e = (h, i)" by (cases e)
  obtain st cb' where g: "getCircuitBreakerState now h cb = (st, cb')"
    by (cases "getCircuitBreakerState now h cb")
  obtain cs cb'' where o: "othersLoop now pref hs cb' = (cs, cb'')"
    by (cases "othersLoop now pref hs cb'")
  show ?case
  proof (cases "Some h = pref")
    case True
    then show ?thesis using Cons e by simp
  next
    case False
    show ?thesis
    proof (cases "st = Open \<or> now - lastSeen i > maxHostAge")
      case True
      then have "othersLoop now pref (e # hs) cb = othersLoop now pref hs cb'"
        using e g False by auto
      then show ?thesis using Cons by simp
    next
      case keep: False
      then have r: "othersLoop now pref (e # hs) cb = ((h, - responseTime i) # cs, cb'')"
        using e g False o by simp
      have "\<not> stored_open cb' h" using stored_open_query_self[of now h cb] g keep by simp
      then have here: "\<not> stored_open cb'' h"
        using othersLoop_keeps_not_open[of cb' h now pref hs] o by simp
      show ?thesis
      proof (cases "c = (h, - responseTime i)")
        case True
        then show ?thesis using r here by simp
      next
        case False
        then have "c \<in> set (fst (othersLoop now pref hs cb'))" using Cons.prems r o by simp
        then show ?thesis using Cons.IH[of cb'] r o by simp
      qed
    qed
  qed
qed

lemma insort_key_map:
  "insort_key f (g x) (map g ys) = map g (insort_key (\<lambda>y. f (g y)) x ys)"
  by (induction ys) simp_all

lemma sort_key_map:
  "sort_key f (map g xs) = map g (sort_key (\<lambda>y. f (g y)) xs)"
  by (induction xs) (simp_all add: insort_key_map)

lemma preferredCandidate_spec:
  "fst (preferredCandidate now hm) =
     (case preferredHost hm of None \<Rightarrow> []
      | Some p \<Rightarrow> if prefQualifies now hm then [(p, 999999)] else [])"
  by (auto simp: preferredCandidate_def prefQualifies_def readState_def
      split: option.splits prod.splits)

lemma preferredCandidate_view:
  "readState now (snd (preferredCandidate now hm)) x = readState now (circuitBreakers hm) x"
proof (cases "preferredHost hm")
  case None
  then show ?thesis by (simp add: preferredCandidate_def)
next
  case (Some p)
  obtain st cb' where g: "getCircuitBreakerState now p (circuitBreakers hm) = (st, cb')"
    by (cases "getCircuitBreakerState now p (circuitBreakers hm)")
  have "readState now cb' x = readState now (circuitBreakers hm) x"
    using readState_after_query[of now p "circuitBreakers hm" x] g by simp
  then show ?thesis using Some g by (simp add: preferredCandidate_def split: option.splits)
qed

lemma preferredCandidate_not_open:
  "c \<in> set (fst (preferredCandidate now hm)) \<Longrightarrow>
   \<not> stored_open (snd (preferredCandidate now hm)) (fst c)"
proof (cases "preferredHost hm")
  case None
  assume "c \<in> set (fst (preferredCandidate now hm))"
  then show ?thesis using None by (simp add: preferredCandidate_def)
next
  case (Some p)
  assume c: "c \<in> set (fst (preferredCandidate now hm))"
  obtain st cb' where g: "getCircuitBreakerState now p (circuitBreakers hm) = (st, cb')"
    by (cases "getCircuitBreakerState now p (circuitBreakers hm)")
  have "st \<noteq> Open \<Longrightarrow> \<not> stored_open cb' p"
    using stored_open_query_self[of now p "circuitBreakers hm"] g by simp
  then show ?thesis using Some g c
    by (auto simp: preferredCandidate_def split: option.splits if_splits)
qed


lemma getOrderedHostList_parts:
  obtains c2 cb2 where
    "othersLoop now (preferredHost hm) (hosts hm) (snd (preferredCandidate now hm)) = (c2, cb2)"
    "getOrderedHostList now hm =
       (let candidates = sort_key (\<lambda>c. - snd c) (fst (preferredCandidate now hm) @ c2) in
        (case primaryHost hm of
           None \<Rightarrow> map fst candidates
         | Some p \<Rightarrow> if candidates = [] \<and> p \<noteq> [] then [p] else map fst candidates),
        hm\<lparr>circuitBreakers := cb2\<rparr>)"
proof -
  obtain c1 cb1 where p: "preferredCandidate now hm = (c1, cb1)"
    by (cases "preferredCandidate now hm")
  obtain c2 cb2 where q: "othersLoop now (preferredHost hm) (hosts hm) cb1 = (c2, cb2)"
    by (cases "othersLoop now (preferredHost hm) (hosts hm) cb1")
  have "getOrderedHostList now hm =
       (let candidates = sort_key (\<lambda>c. - snd c) (c1 @ c2) in
        (case primaryHost hm of
           None \<Rightarrow> map fst candidates
         | Some p \<Rightarrow> if candidates = [] \<and> p \<noteq> [] then [p] else map fst candidates),
        hm\<lparr>circuitBreakers := cb2\<rparr>)"
    using p q by (simp add: getOrderedHostList_def Let_def split: option.splits)
  then show ?thesis using that[of c2 cb2] p q by simp
qed

lemma candidates_sorted:
  assumes rt: "\<forall>e\<in>set (hosts hm). 0 \<le> responseTime (snd e)"
    and c2: "othersLoop now (preferredHost hm) (hosts hm) (snd (preferredCandidate now hm)) = (c2, cb2)"
  shows "map fst (sort_key (\<lambda>c. - snd c) (fst (preferredCandidate now hm) @ c2))
           = spec_candidates now hm"
proof -
  let ?g = "\<lambda>(h, i). (h, - responseTime i)"
  have c2_eq: "c2 = map ?g (otherHosts now hm)"
    using othersLoop_spec[of now "snd (preferredCandidate now hm)" "circuitBreakers hm"
        "preferredHost hm" "hosts hm"] preferredCandidate_view[of now hm] c2
    by (simp add: otherHosts_def)
  have key: "(\<lambda>y. - snd (?g y)) = (\<lambda>e. responseTime (snd e))" by (auto simp: fun_eq_iff)
  have sorted_c2: "map fst (sort_key (\<lambda>c. - snd c) c2)
      = map fst (sort_key (\<lambda>e. responseTime (snd e)) (otherHosts now hm))"
    by (simp add: c2_eq sort_key_map key comp_def case_prod_unfold)
  have low: "\<forall>c\<in>set c2. - 999999 \<le> - snd c"
  proof
    fix c assume "c \<in> set c2"
    then obtain e where e: "e \<in> set (otherHosts now hm)" "c = ?g e" using c2_eq by auto
    then have "e \<in> set (hosts hm)" by (simp add: otherHosts_def)
    then have "0 \<le> responseTime (snd e)" using rt by blast
    then show "- 999999 \<le> - snd c" using e(2) by (cases e) simp
  qed
  show ?thesis
  proof (cases "fst (preferredCandidate now hm)")
    case Nil
    then have "spec_candidates now hm
        = map fst (sort_key (\<lambda>e. responseTime (snd e)) (otherHosts now hm))"
      by (auto simp: spec_candidates_def preferredCandidate_spec split: option.splits if_splits)
    then show ?thesis using Nil sorted_c2 by simp
  next
    case (Cons a as)
    then obtain p where p: "preferredHost hm = Some p" "prefQualifies now hm"
        "fst (preferredCandidate now hm) = [(p, 999999)]"
      by (auto simp: preferredCandidate_spec split: option.splits if_splits)
    have "insort_key (\<lambda>c. - snd c) (p, 999999) (sort_key (\<lambda>c. - snd c) c2)
        = (p, 999999) # sort_key (\<lambda>c. - snd c) c2"
      by (rule insort_is_Cons) (use low in simp)
    then have "map fst (sort_key (\<lambda>c. - snd c) (fst (preferredCandidate now hm) @ c2))
        = p # map fst (sort_key (\<lambda>c. - snd c) c2)"
      using p(3) by simp
    then show ?thesis using p sorted_c2 by (simp add: spec_candidates_def)
  qed
qed

text \<open>
  Claim C2, as amended. When no stored response time is negative, the list
  \<^verbatim>\<open>getOrderedHostList\<close> returns is the candidate list whenever that is not empty: the
  preferred host first, if it is set, known, not read as open and seen less than 120000 ms
  ago, then every other host not read as open and seen at most 300000 ms ago, by ascending
  response time; and after the call no candidate's breaker is stored as open. When the
  candidate list is empty the result is the primary host alone if one is set, whatever its
  breaker says, and the empty list if none is set.
\<close>

theorem ordered_host_list_candidates_or_primary:
  assumes rt: "\<forall>e\<in>set (hosts hm). 0 \<le> responseTime (snd e)"
  shows "fst (getOrderedHostList now hm) =
           (if spec_candidates now hm = []
            then (case primaryHost hm of None \<Rightarrow> [] | Some p \<Rightarrow> if p = [] then [] else [p])
            else spec_candidates now hm)
       \<and> (\<forall>h\<in>set (spec_candidates now hm).
            \<not> stored_open (circuitBreakers (snd (getOrderedHostList now hm))) h)"
proof -
  obtain c2 cb2 where
    c2: "othersLoop now (preferredHost hm) (hosts hm) (snd (preferredCandidate now hm)) = (c2, cb2)"
    and g: "getOrderedHostList now hm =
       (let candidates = sort_key (\<lambda>c. - snd c) (fst (preferredCandidate now hm) @ c2) in
        (case primaryHost hm of
           None \<Rightarrow> map fst candidates
         | Some p \<Rightarrow> if candidates = [] \<and> p \<noteq> [] then [p] else map fst candidates),
        hm\<lparr>circuitBreakers := cb2\<rparr>)"
    by (rule getOrderedHostList_parts)
  let ?cands = "sort_key (\<lambda>c. - snd c) (fst (preferredCandidate now hm) @ c2)"
  have m: "map fst ?cands = spec_candidates now hm" using candidates_sorted[OF rt c2] .
  then have e: "?cands = [] \<longleftrightarrow> spec_candidates now hm = []" by (metis map_is_Nil_conv)
  have first: "fst (getOrderedHostList now hm) =
           (if spec_candidates now hm = []
            then (case primaryHost hm of None \<Rightarrow> [] | Some p \<Rightarrow> if p = [] then [] else [p])
            else spec_candidates now hm)"
    using g m e by (auto simp: Let_def split: option.splits)
  have second: "\<not> stored_open cb2 h" if h: "h \<in> set (spec_candidates now hm)" for h
  proof -
    from h m obtain c where c: "c \<in> set ?cands" "fst c = h" by (metis (no_types, lifting) imageE list.set_map)
    then have "c \<in> set (fst (preferredCandidate now hm)) \<or> c \<in> set c2" by simp
    then show ?thesis
    proof
      assume "c \<in> set (fst (preferredCandidate now hm))"
      then have "\<not> stored_open (snd (preferredCandidate now hm)) (fst c)"
        by (rule preferredCandidate_not_open)
      then show ?thesis
        using othersLoop_keeps_not_open[of "snd (preferredCandidate now hm)" "fst c" now
            "preferredHost hm" "hosts hm"] c2 c(2) by simp
    next
      assume "c \<in> set c2"
      then show ?thesis
        using othersLoop_candidates_not_open[of c now "preferredHost hm" "hosts hm"
            "snd (preferredCandidate now hm)"] c2 c(2) by simp
    qed
  qed
  show ?thesis using first second g by (simp add: Let_def)
qed

theorem ordered_host_list_candidates_or_primary_witness:
  "list_all (\<lambda>e. 0 \<le> responseTime (snd e)) (hosts scenario_state)
   \<and> preferredHost scenario_state = Some ''10.0.0.2''
   \<and> stored_open (circuitBreakers scenario_state) ''10.0.0.3''
   \<and> spec_candidates 1000 scenario_state = [''10.0.0.2'', ''10.0.0.1'']
   \<and> fst (getOrderedHostList 1000 scenario_state) = [''10.0.0.2'', ''10.0.0.1'']"
proof -
  have rt': "list_all (\<lambda>e. 0 \<le> responseTime (snd e)) (hosts scenario_state)" by code_simp
  then have rt: "\<forall>e\<in>set (hosts scenario_state). 0 \<le> responseTime (snd e)"
    by (simp add: list_all_iff)
  have p: "preferredHost scenario_state = Some ''10.0.0.2''" by code_simp
  have o: "stored_open (circuitBreakers scenario_state) ''10.0.0.3''" by code_simp
  have s: "spec_candidates 1000 scenario_state = [''10.0.0.2'', ''10.0.0.1'']" by code_simp
  show ?thesis
    using rt' p o s ordered_host_list_candidates_or_primary[OF rt, of 1000] by simp
qed

text \<open>
  The claim as it was worded fails in two states: a manager that was never given a primary
  host returns the empty list, not a singleton; and a manager whose only host, the primary,
  has an open breaker returns that host.
\<close>

theorem ordered_host_list_counterexample:
  "primaryHost constructor = None
   \<and> fst (getOrderedHostList 0 constructor) = []
   \<and> primaryHost primary_open_state = Some ''10.0.0.1''
   \<and> stored_open (circuitBreakers primary_open_state) ''10.0.0.1''
   \<and> readState 40 (circuitBreakers primary_open_state) ''10.0.0.1'' = Open
   \<and> fst (getOrderedHostList 40 primary_open_state) = [''10.0.0.1'']
   \<and> stored_open (circuitBreakers (snd (getOrderedHostList 40 primary_open_state))) ''10.0.0.1''"
  by code_simp

section \<open>The fallback executor: the loop over hosts\<close>

lemma updatePreferredHost_keeps [simp]:
  "hosts (updatePreferredHost now hm) = hosts hm"
  "primaryHost (updatePreferredHost now hm) = primaryHost hm"
  by (auto simp: updatePreferredHost_def Let_def split: option.splits prod.splits)

lemma updateHostStatus_primaryHost [simp]:
  "primaryHost (updateHostStatus now h ok rt hm) = primaryHost hm"
  by (simp add: updateHostStatus_def Let_def)

lemma getOrderedHostList_keeps [simp]:
  "hosts (snd (getOrderedHostList now hm)) = hosts hm"
  "primaryHost (snd (getOrderedHostList now hm)) = primaryHost hm"
  "preferredHost (snd (getOrderedHostList now hm)) = preferredHost hm"
  by (auto simp: getOrderedHostList_def Let_def split: option.splits prod.splits)

lemma tryHosts_failedPrefix:
  "\<forall>x\<in>set pre. retryable e path opts x \<Longrightarrow>
   tryHosts e path opts (pre @ rest) now dev le =
     (case failedPrefix e path opts pre now dev le of
        (now', dev', le') \<Rightarrow> tryHosts e path opts rest now' dev' le')"
proof (induction pre arbitrary: now dev le)
  case Nil
  then show ?case by simp
next
  case (Cons h pre)
  obtain res d where s: "send e h path opts = (res, d)" by (cases "send e h path opts")
  from Cons.prems have "retryable e path opts h" by simp
  then obtain err where err: "res = Inl err" "\<not> noFailover err"
    using s by (auto simp: retryable_def split: sum.splits)
  have "\<forall>x\<in>set pre. retryable e path opts x" using Cons.prems by simp
  from Cons.IH[OF this] show ?case using s err by (simp add: Let_def)
qed

lemma failedPrefix_issued:
  "failedPrefix e path opts pre now dev le = (now', dev', le') \<Longrightarrow>
   issued dev' = issued dev @ pre \<and> homey dev' = homey dev
   \<and> requestCache dev' = requestCache dev \<and> pendingRequests dev' = pendingRequests dev
   \<and> primaryHost (hostManager dev') = primaryHost (hostManager dev)"
proof (induction pre arbitrary: now dev le)
  case Nil
  then show ?case by simp
next
  case (Cons h pre)
  obtain res d where s: "send e h path opts = (res, d)" by (cases "send e h path opts")
  show ?case using Cons.IH Cons.prems s by (fastforce simp: Let_def)
qed


lemma failure_recorded:
  "\<exists>i b. map_of (hosts (updateHostStatus n h False r hm)) h = Some i \<and> status i = Unhealthy
     \<and> lastFailure i = Some n \<and> 0 < failureCount i
     \<and> circuitBreakers (updateHostStatus n h False r hm) h = Some b
     \<and> lastFailureAt b = n \<and> 0 < failures b"
  by (simp add: updateHostStatus_def recordFailure_def Let_def update_conv')

lemma execute_own_request:
  assumes "startsRequest path opts now dev"
    and "requestPromise e path opts now dev = (res, now', dev')"
  shows "executeApiCallWithFallback e path opts now dev =
     (Settled res, now',
      if isGet opts \<and> \<not> skipCache opts
      then dev'\<lparr>requestCache :=
                  (case res of Inl _ \<Rightarrow> requestCache dev'
                             | Inr r \<Rightarrow> setCachedResponse now' (path, opts) r (requestCache dev')),
                pendingRequests := (pendingRequests dev')((path, opts) := None)\<rparr>
      else dev')"
  using assms
  by (auto simp: executeApiCallWithFallback_def startsRequest_def Let_def split: option.splits)

lemma api_error_of_response:
  assumes "\<not> (200 \<le> st \<and> st \<le> 299)"
  shows "\<exists>err. request p opts (Response st raw) = Inl err \<and> statusCode err = Some st
     \<and> message err = ''API Error '' @ show_nat st @ '': '' @ take 200 raw
     \<and> noFailover err = (400 \<le> st \<and> st < 500)"
  using assms by (auto simp: request_def noFailover_def)

lemma requestPromise_thrown:
  assumes order: "fst (getOrderedHostList now (hostManager dev)) = pre @ h # rest"
    and pre: "\<forall>x\<in>set pre. retryable e path opts x"
    and s: "send e h path opts = (Inl err, d)"
    and nf: "noFailover err"
  shows "\<exists>now' dev' i b.
      requestPromise e path opts now dev = (Inl err, now', dev')
    \<and> issued dev' = issued dev @ pre @ [h]
    \<and> map_of (hosts (hostManager dev')) h = Some i \<and> status i = Unhealthy
    \<and> lastFailure i = Some now' \<and> 0 < failureCount i
    \<and> circuitBreakers (hostManager dev') h = Some b \<and> lastFailureAt b = now' \<and> 0 < failures b
    \<and> requestCache dev' = requestCache dev \<and> pendingRequests dev' = pendingRequests dev"
proof -
  obtain hl hm1 where g: "getOrderedHostList now (hostManager dev) = (hl, hm1)"
    by (cases "getOrderedHostList now (hostManager dev)")
  then have hl: "hl = pre @ h # rest" using order by simp
  define dev1 where "dev1 = dev\<lparr>hostManager := hm1\<rparr>"
  obtain n1 d1 le1 where f: "failedPrefix e path opts pre now dev1 None = (n1, d1, le1)"
    by (cases "failedPrefix e path opts pre now dev1 None")
  define dev2 where "dev2 = d1\<lparr>issued := issued d1 @ [h],
      hostManager := updateHostStatus (n1 + int d) h False 0 (hostManager d1)\<rparr>"
  have t: "tryHosts e path opts hl now dev1 None = (Thrown err, n1 + int d, dev2)"
    using tryHosts_failedPrefix[OF pre, of "h # rest" now dev1 None] f s nf
    by (simp add: hl Let_def dev2_def)
  have r: "requestPromise e path opts now dev = (Inl err, n1 + int d, dev2)"
    using g t hl by (simp add: requestPromise_def Let_def dev1_def)
  have k: "issued d1 = issued dev1 @ pre" "requestCache d1 = requestCache dev1"
      "pendingRequests d1 = pendingRequests dev1"
    using failedPrefix_issued[OF f] by simp_all
  obtain i b where ib: "map_of (hosts (hostManager dev2)) h = Some i" "status i = Unhealthy"
      "lastFailure i = Some (n1 + int d)" "0 < failureCount i"
      "circuitBreakers (hostManager dev2) h = Some b" "lastFailureAt b = n1 + int d" "0 < failures b"
    using failure_recorded[of "n1 + int d" h 0 "hostManager d1"] by (auto simp: dev2_def)
  have "issued dev2 = issued dev @ pre @ [h]" "requestCache dev2 = requestCache dev"
      "pendingRequests dev2 = pendingRequests dev"
    using k by (simp_all add: dev2_def dev1_def)
  then show ?thesis using r ib by blast
qed

section \<open>The fallback executor: all hosts fail\<close>

lemma failureCountOf_failure:
  "failureCountOf (updateHostStatus n h False r hm) x
     = failureCountOf hm x + (if x = h then 1 else 0)"
  by (simp add: failureCountOf_def updateHostStatus_def Let_def update_conv' split: option.splits)

lemma failedPrefix_counts:
  "failedPrefix e path opts pre now dev le = (now', dev', le') \<Longrightarrow>
   failureCountOf (hostManager dev') x = failureCountOf (hostManager dev) x + count_list pre x"
proof (induction pre arbitrary: now dev le)
  case Nil
  then show ?case by simp
next
  case (Cons h pre)
  obtain res d where s: "send e h path opts = (res, d)" by (cases "send e h path opts")
  show ?case using Cons.IH Cons.prems s by (fastforce simp: failureCountOf_failure)
qed

lemma failedPrefix_lastError:
  "failedPrefix e path opts pre now dev le = (now', dev', le') \<Longrightarrow>
   \<forall>x\<in>set pre. retryable e path opts x \<Longrightarrow> pre \<noteq> [] \<Longrightarrow>
   \<exists>err. fst (send e (last pre) path opts) = Inl err \<and> le' = Some err"
proof (induction pre arbitrary: now dev le)
  case Nil
  then show ?case by simp
next
  case (Cons h pre)
  obtain res d where s: "send e h path opts = (res, d)" by (cases "send e h path opts")
  from Cons.prems(2) have "retryable e path opts h" by simp
  then obtain err where err: "res = Inl err" using s by (auto simp: retryable_def split: sum.splits)
  show ?case
  proof (cases "pre = []")
    case True
    then show ?thesis using Cons.prems(1) s err by simp
  next
    case False
    then show ?thesis using Cons.IH[OF _ _ False] Cons.prems s err by simp
  qed
qed

lemma count_list_distinct: "distinct xs \<Longrightarrow> x \<in> set xs \<Longrightarrow> count_list xs x = 1"
  by (induction xs) auto

lemma distinct_keys_sort_key:
  "distinct (map fst (sort_key f xs)) = distinct (map fst xs)"
proof -
  have "mset (map fst (sort_key f xs)) = mset (map fst xs)" by simp
  then show ?thesis by (rule mset_eq_imp_distinct_iff)
qed

lemma getOrderedHostList_distinct:
  assumes d: "distinct (map fst (hosts hm))"
  shows "distinct (fst (getOrderedHostList now hm))"
proof -
  obtain c2 cb2 where
    c2: "othersLoop now (preferredHost hm) (hosts hm) (snd (preferredCandidate now hm)) = (c2, cb2)"
    and g: "getOrderedHostList now hm =
       (let candidates = sort_key (\<lambda>c. - snd c) (fst (preferredCandidate now hm) @ c2) in
        (case primaryHost hm of
           None \<Rightarrow> map fst candidates
         | Some p \<Rightarrow> if candidates = [] \<and> p \<noteq> [] then [p] else map fst candidates),
        hm\<lparr>circuitBreakers := cb2\<rparr>)"
    by (rule getOrderedHostList_parts)
  have c2_eq: "c2 = map (\<lambda>(h, i). (h, - responseTime i)) (otherHosts now hm)"
    using othersLoop_spec[of now "snd (preferredCandidate now hm)" "circuitBreakers hm"
        "preferredHost hm" "hosts hm"] preferredCandidate_view[of now hm] c2
    by (simp add: otherHosts_def)
  have k2: "map fst c2 = map fst (otherHosts now hm)"
    by (simp add: c2_eq comp_def case_prod_unfold)
  have d2: "distinct (map fst c2)"
    unfolding k2 otherHosts_def using d by (rule distinct_map_filter)
  have "distinct (map fst (fst (preferredCandidate now hm) @ c2))"
  proof (cases "fst (preferredCandidate now hm)")
    case Nil
    then show ?thesis using d2 by simp
  next
    case (Cons a as)
    then obtain p where p: "preferredHost hm = Some p"
        "fst (preferredCandidate now hm) = [(p, 999999)]"
      by (auto simp: preferredCandidate_spec split: option.splits if_splits)
    have "p \<notin> set (map fst c2)" unfolding k2 using p(1) by (auto simp: otherHosts_def)
    then show ?thesis using p(2) d2 by simp
  qed
  then have "distinct (map fst (sort_key (\<lambda>c. - snd c) (fst (preferredCandidate now hm) @ c2)))"
    by (simp only: distinct_keys_sort_key)
  then show ?thesis using g by (auto simp: Let_def split: option.splits)
qed

lemma requestPromise_exhausted:
  assumes ne: "fst (getOrderedHostList now (hostManager dev)) \<noteq> []"
    and all: "\<forall>x\<in>set (fst (getOrderedHostList now (hostManager dev))). retryable e path opts x"
  shows "\<exists>err now' dev'.
      fst (send e (last (fst (getOrderedHostList now (hostManager dev)))) path opts) = Inl err
    \<and> requestPromise e path opts now dev = (Inl err, now', dev')
    \<and> issued dev' = issued dev @ fst (getOrderedHostList now (hostManager dev))
    \<and> (\<forall>x. failureCountOf (hostManager dev') x
           = failureCountOf (hostManager dev) x
             + count_list (fst (getOrderedHostList now (hostManager dev))) x)
    \<and> homey dev' = (if \<not> fallbackActive (homey dev)
                    then setUnavailable (''Connection failed. Last: '' @ message err) (homey dev)
                    else homey dev)
    \<and> requestCache dev' = requestCache dev \<and> pendingRequests dev' = pendingRequests dev"
proof -
  obtain hl hm1 where g: "getOrderedHostList now (hostManager dev) = (hl, hm1)"
    by (cases "getOrderedHostList now (hostManager dev)")
  have hl: "hl \<noteq> []" "\<forall>x\<in>set hl. retryable e path opts x" using g ne all by simp_all
  have hm1: "hosts hm1 = hosts (hostManager dev)"
    using getOrderedHostList_keeps(1)[of now "hostManager dev"] g by simp
  define dev1 where "dev1 = dev\<lparr>hostManager := hm1\<rparr>"
  obtain n1 d1 le1 where f: "failedPrefix e path opts hl now dev1 None = (n1, d1, le1)"
    by (cases "failedPrefix e path opts hl now dev1 None")
  have t: "tryHosts e path opts hl now dev1 None = (Exhausted le1, n1, d1)"
    using tryHosts_failedPrefix[OF hl(2), of "[]" now dev1 None] f by simp
  obtain err where err: "fst (send e (last hl) path opts) = Inl err" "le1 = Some err"
    using failedPrefix_lastError[OF f hl(2) hl(1)] by blast
  define br where "br = (if \<not> fallbackActive (homey d1)
      then setUnavailable (''Connection failed. Last: '' @ message err) (homey d1) else homey d1)"
  have r: "requestPromise e path opts now dev = (Inl err, n1, d1\<lparr>homey := br\<rparr>)"
    using g t hl(1) err(2) by (simp add: requestPromise_def Let_def dev1_def br_def)
  have k: "issued d1 = issued dev1 @ hl" "homey d1 = homey dev1"
      "requestCache d1 = requestCache dev1" "pendingRequests d1 = pendingRequests dev1"
    using failedPrefix_issued[OF f] by simp_all
  have c: "failureCountOf (hostManager d1) x = failureCountOf (hostManager dev) x + count_list hl x" for x
    using failedPrefix_counts[OF f, of x] hm1 by (simp add: dev1_def failureCountOf_def)
  show ?thesis
    using r err(1) k c g by (simp add: dev1_def br_def)
qed

text \<open>
  Claim C9, as amended. In a call that runs its own request, when every host of the
  ordered list fails in a way that lets the loop go on, a request was sent to each host of
  the list in order, the failure count of each of them has gone up by one, and the call
  fails with the very error of the last host (\<^verbatim>\<open>throw lastError\<close>), not with a new error
  around it. The text \<^verbatim>\<open>Connection failed. Last: ...\<close> goes to \<^verbatim>\<open>setUnavailable\<close> only,
  and only when the fallback alarm is not set.
\<close>

theorem exhaustion_throws_last_error:
  assumes start: "startsRequest path opts now dev"
    and keys: "distinct (map fst (hosts (hostManager dev)))"
    and ne: "fst (getOrderedHostList now (hostManager dev)) \<noteq> []"
    and all: "\<forall>x\<in>set (fst (getOrderedHostList now (hostManager dev))). retryable e path opts x"
  shows "\<exists>err now' dev'.
      fst (send e (last (fst (getOrderedHostList now (hostManager dev)))) path opts) = Inl err
    \<and> executeApiCallWithFallback e path opts now dev = (Settled (Inl err), now', dev')
    \<and> issued dev' = issued dev @ fst (getOrderedHostList now (hostManager dev))
    \<and> (\<forall>x\<in>set (fst (getOrderedHostList now (hostManager dev))).
          failureCountOf (hostManager dev') x = failureCountOf (hostManager dev) x + 1)
    \<and> homey dev' = (if \<not> fallbackActive (homey dev)
                    then setUnavailable (''Connection failed. Last: '' @ message err) (homey dev)
                    else homey dev)"
proof -
  let ?hl = "fst (getOrderedHostList now (hostManager dev))"
  from requestPromise_exhausted[OF ne all]
  obtain err now' dev' where r:
      "fst (send e (last ?hl) path opts) = Inl err"
      "requestPromise e path opts now dev = (Inl err, now', dev')"
      "issued dev' = issued dev @ ?hl"
      "\<forall>x. failureCountOf (hostManager dev') x = failureCountOf (hostManager dev) x + count_list ?hl x"
      "homey dev' = (if \<not> fallbackActive (homey dev)
                    then setUnavailable (''Connection failed. Last: '' @ message err) (homey dev)
                    else homey dev)"
    by blast
  define dev'' where "dev'' = (if isGet opts \<and> \<not> skipCache opts
      then dev'\<lparr>requestCache := requestCache dev',
                pendingRequests := (pendingRequests dev')((path, opts) := None)\<rparr>
      else dev')"
  have x: "executeApiCallWithFallback e path opts now dev = (Settled (Inl err), now', dev'')"
    using execute_own_request[OF start r(2)] by (simp add: dev''_def)
  have same: "issued dev'' = issued dev'" "hostManager dev'' = hostManager dev'" "homey dev'' = homey dev'"
    by (simp_all add: dev''_def)
  have "distinct ?hl" using keys by (rule getOrderedHostList_distinct)
  then have one: "\<forall>x\<in>set ?hl. count_list ?hl x = 1" by (simp add: count_list_distinct)
  have "\<forall>x\<in>set ?hl. failureCountOf (hostManager dev'') x = failureCountOf (hostManager dev) x + 1"
    using r(4) one same(2) by simp
  then show ?thesis using r(1,3,5) x same by auto
qed

theorem exhaustion_throws_last_error_witness:
  "startsRequest ''/api2/json/version'' get_options 100 (bare_device two_hosts)
   \<and> distinct (map fst (hosts (hostManager (bare_device two_hosts))))
   \<and> fst (getOrderedHostList 100 (hostManager (bare_device two_hosts))) = [''10.0.0.1'', ''10.0.0.2'']
   \<and> retryable (network refuses) ''/api2/json/version'' get_options ''10.0.0.1''
   \<and> retryable (network refuses) ''/api2/json/version'' get_options ''10.0.0.2''
   \<and> fst (executeApiCallWithFallback (network refuses) ''/api2/json/version''
           get_options 100 (bare_device two_hosts))
       = Settled (fst (send (network refuses) ''10.0.0.2'' ''/api2/json/version'' get_options))
   \<and> failureCountOf (hostManager (snd (snd (executeApiCallWithFallback (network refuses)
           ''/api2/json/version'' get_options 100 (bare_device two_hosts))))) ''10.0.0.1''
       = failureCountOf (hostManager (bare_device two_hosts)) ''10.0.0.1'' + 1
   \<and> failureCountOf (hostManager (snd (snd (executeApiCallWithFallback (network refuses)
           ''/api2/json/version'' get_options 100 (bare_device two_hosts))))) ''10.0.0.2''
       = failureCountOf (hostManager (bare_device two_hosts)) ''10.0.0.2'' + 1"
proof -
  have a: "startsRequest ''/api2/json/version'' get_options 100 (bare_device two_hosts)"
    by (simp add: startsRequest_def bare_device_def getCachedResponse_def)
  have k: "distinct (map fst (hosts (hostManager (bare_device two_hosts))))" by code_simp
  have b: "fst (getOrderedHostList 100 (hostManager (bare_device two_hosts)))
       = [''10.0.0.1'', ''10.0.0.2'']" by code_simp
  have n: "fst (getOrderedHostList 100 (hostManager (bare_device two_hosts))) \<noteq> []"
    using b by simp
  have c: "retryable (network refuses) ''/api2/json/version'' get_options ''10.0.0.1''"
    "retryable (network refuses) ''/api2/json/version'' get_options ''10.0.0.2''"
    by code_simp+
  then have c': "\<forall>x\<in>set (fst (getOrderedHostList 100 (hostManager (bare_device two_hosts)))).
         retryable (network refuses) ''/api2/json/version'' get_options x"
    using b by simp
  from exhaustion_throws_last_error[OF a k n c']
  obtain err now' dev' where
    "fst (send (network refuses)
           (last (fst (getOrderedHostList 100 (hostManager (bare_device two_hosts)))))
           ''/api2/json/version'' get_options) = Inl err"
    "executeApiCallWithFallback (network refuses) ''/api2/json/version''
           get_options 100 (bare_device two_hosts) = (Settled (Inl err), now', dev')"
    "\<forall>x\<in>set (fst (getOrderedHostList 100 (hostManager (bare_device two_hosts)))).
          failureCountOf (hostManager dev') x
            = failureCountOf (hostManager (bare_device two_hosts)) x + 1"
    by blast
  then show ?thesis using a k b c by simp
qed

text \<open>
  With both hosts refusing the connection, what the call throws is field for field the
  error \<^verbatim>\<open>request\<close> threw for the second host.
\<close>

theorem exhaustion_counterexample:
  "fst (getOrderedHostList 100 two_hosts) = [''10.0.0.1'', ''10.0.0.2'']
   \<and> fst (send (network refuses) ''10.0.0.2'' ''/api2/json/version'' get_options)
       = Inl \<lparr>message = ''connect ECONNREFUSED 10.0.0.2'', statusCode = None,
              errcode = Some ''ECONNREFUSED'', errtype = Some ''system'',
              errname = ''FetchError'', responseBody = None\<rparr>
   \<and> fst (executeApiCallWithFallback (network refuses) ''/api2/json/version''
           get_options 100 (bare_device two_hosts))
       = Settled (Inl \<lparr>message = ''connect ECONNREFUSED 10.0.0.2'', statusCode = None,
              errcode = Some ''ECONNREFUSED'', errtype = Some ''system'',
              errname = ''FetchError'', responseBody = None\<rparr>)
   \<and> unavailable (homey (snd (snd (executeApiCallWithFallback (network refuses)
           ''/api2/json/version'' get_options 100 (bare_device two_hosts)))))
       = Some ''Connection failed. Last: connect ECONNREFUSED 10.0.0.2''"
  by code_simp

section \<open>The fallback executor: which failures stop the loop\<close>

lemma other_host_entry_kept:
  "x \<noteq> h \<Longrightarrow> map_of (hosts (updateHostStatus n h ok rt hm)) x = map_of (hosts hm) x"
  by (simp add: updateHostStatus_def Let_def update_conv')

lemma tryHosts_issued_grows:
  "tryHosts e path opts hs now dev le = (r, now', dev') \<Longrightarrow>
   \<exists>tried. issued dev' = issued dev @ tried"
proof (induction hs arbitrary: now dev le)
  case Nil
  then show ?case by simp
next
  case (Cons h hs)
  obtain res d where s: "send e h path opts = (res, d)" by (cases "send e h path opts")
  show ?case
  proof (cases res)
    case (Inr v)
    then show ?thesis using Cons.prems s by (auto simp: Let_def)
  next
    case (Inl err)
    show ?thesis
    proof (cases "noFailover err")
      case True
      then show ?thesis using Cons.prems s Inl by (auto simp: Let_def)
    next
      case False
      define dev2 where "dev2 = dev\<lparr>issued := issued dev @ [h],
          hostManager := updateHostStatus (now + int d) h False 0 (hostManager dev)\<rparr>"
      have "tryHosts e path opts hs (now + int d) dev2 (Some err) = (r, now', dev')"
        using Cons.prems s Inl False by (simp add: Let_def dev2_def)
      from Cons.IH[OF this] obtain tried where "issued dev' = issued dev2 @ tried" by blast
      then have "issued dev' = issued dev @ (h # tried)" by (simp add: dev2_def)
      then show ?thesis by blast
    qed
  qed
qed

lemma tryHosts_first_is_tried:
  "tryHosts e path opts (x # xs) now dev le = (r, now', dev') \<Longrightarrow>
   \<exists>more. issued dev' = issued dev @ x # more"
proof -
  assume t: "tryHosts e path opts (x # xs) now dev le = (r, now', dev')"
  obtain res d where s: "send e x path opts = (res, d)" by (cases "send e x path opts")
  show ?thesis
  proof (cases res)
    case (Inr v)
    then show ?thesis using t s by (auto simp: Let_def)
  next
    case (Inl err)
    show ?thesis
    proof (cases "noFailover err")
      case True
      then show ?thesis using t s Inl by (auto simp: Let_def)
    next
      case False
      define dev2 where "dev2 = dev\<lparr>issued := issued dev @ [x],
          hostManager := updateHostStatus (now + int d) x False 0 (hostManager dev)\<rparr>"
      have "tryHosts e path opts xs (now + int d) dev2 (Some err) = (r, now', dev')"
        using t s Inl False by (simp add: Let_def dev2_def)
      from tryHosts_issued_grows[OF this] obtain tried where "issued dev' = issued dev2 @ tried"
        by blast
      then have "issued dev' = issued dev @ x # tried" by (simp add: dev2_def)
      then show ?thesis by blast
    qed
  qed
qed

lemma tryHosts_other_entry_kept:
  "h \<notin> set hs \<Longrightarrow> tryHosts e path opts hs now dev le = (r, now', dev') \<Longrightarrow>
   map_of (hosts (hostManager dev')) h = map_of (hosts (hostManager dev)) h"
proof (induction hs arbitrary: now dev le)
  case Nil
  then show ?case by simp
next
  case (Cons x hs)
  obtain res d where s: "send e x path opts = (res, d)" by (cases "send e x path opts")
  have ne: "h \<noteq> x" "h \<notin> set hs" using Cons.prems(1) by auto
  show ?case
  proof (cases res)
    case (Inr v)
    then show ?thesis using Cons.prems(2) s ne(1) by (auto simp: Let_def other_host_entry_kept)
  next
    case (Inl err)
    show ?thesis
    proof (cases "noFailover err")
      case True
      then show ?thesis using Cons.prems(2) s Inl ne(1)
        by (auto simp: Let_def other_host_entry_kept)
    next
      case False
      define dev2 where "dev2 = dev\<lparr>issued := issued dev @ [x],
          hostManager := updateHostStatus (now + int d) x False 0 (hostManager dev)\<rparr>"
      have "tryHosts e path opts hs (now + int d) dev2 (Some err) = (r, now', dev')"
        using Cons.prems(2) s Inl False by (simp add: Let_def dev2_def)
      from Cons.IH[OF ne(2) this]
      show ?thesis using ne(1) by (simp add: dev2_def other_host_entry_kept)
    qed
  qed
qed

lemma requestPromise_tried:
  assumes g: "fst (getOrderedHostList now (hostManager dev)) \<noteq> []"
  shows "\<exists>l now' dev2 res dev'.
      tryHosts e path opts (fst (getOrderedHostList now (hostManager dev))) now
          (dev\<lparr>hostManager := snd (getOrderedHostList now (hostManager dev))\<rparr>) None
        = (l, now', dev2)
    \<and> requestPromise e path opts now dev = (res, now', dev')
    \<and> hostManager dev' = hostManager dev2 \<and> issued dev' = issued dev2"
proof -
  obtain hl hm1 where h: "getOrderedHostList now (hostManager dev) = (hl, hm1)"
    by (cases "getOrderedHostList now (hostManager dev)")
  obtain l n2 dev2 where t: "tryHosts e path opts hl now (dev\<lparr>hostManager := hm1\<rparr>) None = (l, n2, dev2)"
    by (cases "tryHosts e path opts hl now (dev\<lparr>hostManager := hm1\<rparr>) None") auto
  show ?thesis using g h t by (cases l) (auto simp: requestPromise_def Let_def)
qed

lemma server_error_moves_on:
  assumes start: "startsRequest path opts now dev"
    and order: "fst (getOrderedHostList now (hostManager dev)) = pre @ h # rest"
    and pre: "\<forall>x\<in>set pre. retryable e path opts x"
    and s: "send e h path opts = (Inl err, d)"
    and nf: "\<not> noFailover err"
    and keys: "distinct (map fst (hosts (hostManager dev)))"
  shows "\<exists>rep now' dev'.
      executeApiCallWithFallback e path opts now dev = (rep, now', dev')
    \<and> failureCountOf (hostManager dev') h = failureCountOf (hostManager dev) h + 1
    \<and> (\<exists>tried. issued dev' = issued dev @ pre @ [h] @ tried)
    \<and> (\<forall>x xs. rest = x # xs \<longrightarrow> (\<exists>more. issued dev' = issued dev @ pre @ [h] @ x # more))"
proof -
  let ?hl = "fst (getOrderedHostList now (hostManager dev))"
  let ?dev1 = "dev\<lparr>hostManager := snd (getOrderedHostList now (hostManager dev))\<rparr>"
  have "distinct ?hl" using keys by (rule getOrderedHostList_distinct)
  then have notin: "h \<notin> set pre" "h \<notin> set rest" using order by auto
  have ne: "?hl \<noteq> []" using order by simp
  from requestPromise_tried[OF ne, of e path opts]
  obtain l now' dev2 res dev' where t: "tryHosts e path opts ?hl now ?dev1 None = (l, now', dev2)"
      and r: "requestPromise e path opts now dev = (res, now', dev')"
      "hostManager dev' = hostManager dev2" "issued dev' = issued dev2"
    by blast
  have rh: "retryable e path opts h" using s nf by (simp add: retryable_def)
  then have all: "\<forall>x\<in>set (pre @ [h]). retryable e path opts x" using pre by simp
  obtain n2 d2 le2 where f: "failedPrefix e path opts (pre @ [h]) now ?dev1 None = (n2, d2, le2)"
    by (cases "failedPrefix e path opts (pre @ [h]) now ?dev1 None")
  have t2: "tryHosts e path opts rest n2 d2 le2 = (l, now', dev2)"
    using tryHosts_failedPrefix[OF all, of rest now ?dev1 None] f t order by simp
  have i2: "issued d2 = issued dev @ pre @ [h]" using failedPrefix_issued[OF f] by simp
  have c2: "failureCountOf (hostManager d2) h = failureCountOf (hostManager dev) h + 1"
    using failedPrefix_counts[OF f, of h] notin(1) by (simp add: failureCountOf_def)
  have c3: "failureCountOf (hostManager dev2) h = failureCountOf (hostManager d2) h"
    using tryHosts_other_entry_kept[OF notin(2) t2] by (simp add: failureCountOf_def)
  obtain tried where tr: "issued dev2 = issued d2 @ tried"
    using tryHosts_issued_grows[OF t2] by blast
  have nxt: "\<forall>x xs. rest = x # xs \<longrightarrow> (\<exists>more. issued dev2 = issued d2 @ x # more)"
    using tryHosts_first_is_tried t2 by blast
  define dev'' where "dev'' = (if isGet opts \<and> \<not> skipCache opts
      then dev'\<lparr>requestCache :=
                  (case res of Inl _ \<Rightarrow> requestCache dev'
                             | Inr r \<Rightarrow> setCachedResponse now' (path, opts) r (requestCache dev')),
                pendingRequests := (pendingRequests dev')((path, opts) := None)\<rparr>
      else dev')"
  have x: "executeApiCallWithFallback e path opts now dev = (Settled res, now', dev'')"
    using execute_own_request[OF start r(1)] by (simp add: dev''_def)
  have same: "hostManager dev'' = hostManager dev2" "issued dev'' = issued dev2"
    using r(2,3) by (simp_all add: dev''_def)
  have "failureCountOf (hostManager dev'') h = failureCountOf (hostManager dev) h + 1"
    using same(1) c2 c3 by simp
  moreover have "\<exists>tried. issued dev'' = issued dev @ pre @ [h] @ tried"
    using same(2) tr i2 by simp
  moreover have "\<forall>x xs. rest = x # xs \<longrightarrow> (\<exists>more. issued dev'' = issued dev @ pre @ [h] @ x # more)"
    using same(2) nxt i2 by simp
  ultimately show ?thesis using x by blast
qed

text \<open>
  Claim C1, as amended. In a call that runs its own request, let the hosts before \<open>h\<close> in
  the ordered list fail in a way that lets the loop go on, and let \<open>h\<close> answer with a
  status outside 200..299. If the status is from 400 to 499, the failure is recorded for
  \<open>h\<close> (host entry unhealthy with the time of failure and a positive count, breaker
  stamped and counted), no later host is sent a request, and the call fails with exactly
  the error \<^verbatim>\<open>request\<close> built for that response. For every other such status the failure
  is recorded for \<open>h\<close> as well (its failure count is one higher after the call, host keys
  being distinct as in a \<^verbatim>\<open>Map\<close>), and the loop goes on: the next host of the list, if
  there is one, is sent a request.
\<close>

theorem client_error_stops_failover:
  assumes start: "startsRequest path opts now dev"
    and order: "fst (getOrderedHostList now (hostManager dev)) = pre @ h # rest"
    and pre: "\<forall>x\<in>set pre. retryable e path opts x"
    and resp: "fetch e (if h = [] then hostname e else h) path opts = (Response st raw, d)"
    and notok: "\<not> (200 \<le> st \<and> st \<le> 299)"
  shows "(400 \<le> st \<and> st < 500 \<longrightarrow>
           (\<exists>err now' dev' i b.
              request (parse e) opts (Response st raw) = Inl err \<and> statusCode err = Some st
            \<and> executeApiCallWithFallback e path opts now dev = (Settled (Inl err), now', dev')
            \<and> issued dev' = issued dev @ pre @ [h]
            \<and> map_of (hosts (hostManager dev')) h = Some i \<and> status i = Unhealthy
            \<and> lastFailure i = Some now' \<and> 0 < failureCount i
            \<and> circuitBreakers (hostManager dev') h = Some b \<and> lastFailureAt b = now'
            \<and> 0 < failures b))
       \<and> (\<not> (400 \<le> st \<and> st < 500) \<longrightarrow> distinct (map fst (hosts (hostManager dev))) \<longrightarrow>
           (\<exists>err rep now' dev'.
              request (parse e) opts (Response st raw) = Inl err \<and> statusCode err = Some st
            \<and> executeApiCallWithFallback e path opts now dev = (rep, now', dev')
            \<and> failureCountOf (hostManager dev') h = failureCountOf (hostManager dev) h + 1
            \<and> (\<exists>tried. issued dev' = issued dev @ pre @ [h] @ tried)
            \<and> (\<forall>x xs. rest = x # xs \<longrightarrow>
                  (\<exists>more. issued dev' = issued dev @ pre @ [h] @ x # more))))"
proof -
  from api_error_of_response[OF notok, of "parse e" opts raw]
  obtain err where err: "request (parse e) opts (Response st raw) = Inl err"
      "statusCode err = Some st" "noFailover err = (400 \<le> st \<and> st < 500)"
    by auto
  have s: "send e h path opts = (Inl err, d)" using resp err(1) by (simp add: send_def)
  have first: "\<exists>err now' dev' i b.
              request (parse e) opts (Response st raw) = Inl err \<and> statusCode err = Some st
            \<and> executeApiCallWithFallback e path opts now dev = (Settled (Inl err), now', dev')
            \<and> issued dev' = issued dev @ pre @ [h]
            \<and> map_of (hosts (hostManager dev')) h = Some i \<and> status i = Unhealthy
            \<and> lastFailure i = Some now' \<and> 0 < failureCount i
            \<and> circuitBreakers (hostManager dev') h = Some b \<and> lastFailureAt b = now'
            \<and> 0 < failures b"
    if c: "400 \<le> st \<and> st < 500"
  proof -
    have nf: "noFailover err" using err(3) c by simp
    from requestPromise_thrown[OF order pre s nf]
    obtain now' dev' i b where r: "requestPromise e path opts now dev = (Inl err, now', dev')"
        "issued dev' = issued dev @ pre @ [h]"
        "map_of (hosts (hostManager dev')) h = Some i" "status i = Unhealthy"
        "lastFailure i = Some now'" "0 < failureCount i"
        "circuitBreakers (hostManager dev') h = Some b" "lastFailureAt b = now'" "0 < failures b"
      by blast
    define dev'' where "dev'' = (if isGet opts \<and> \<not> skipCache opts
        then dev'\<lparr>requestCache := requestCache dev',
                  pendingRequests := (pendingRequests dev')((path, opts) := None)\<rparr>
        else dev')"
    have x: "executeApiCallWithFallback e path opts now dev = (Settled (Inl err), now', dev'')"
      using execute_own_request[OF start r(1)] by (simp add: dev''_def)
    have "issued dev'' = issued dev @ pre @ [h]" "hostManager dev'' = hostManager dev'"
      using r(2) by (simp_all add: dev''_def)
    then show ?thesis using err(1,2) x r(3-9) by auto
  qed
  have second: "\<exists>err rep now' dev'.
              request (parse e) opts (Response st raw) = Inl err \<and> statusCode err = Some st
            \<and> executeApiCallWithFallback e path opts now dev = (rep, now', dev')
            \<and> failureCountOf (hostManager dev') h = failureCountOf (hostManager dev) h + 1
            \<and> (\<exists>tried. issued dev' = issued dev @ pre @ [h] @ tried)
            \<and> (\<forall>x xs. rest = x # xs \<longrightarrow>
                  (\<exists>more. issued dev' = issued dev @ pre @ [h] @ x # more))"
    if c: "\<not> (400 \<le> st \<and> st < 500)" and keys: "distinct (map fst (hosts (hostManager dev)))"
  proof -
    have nf: "\<not> noFailover err" using err(3) c by simp
    from server_error_moves_on[OF start order pre s nf keys]
    show ?thesis using err(1,2) by blast
  qed
  show ?thesis using first second by blast
qed

theorem client_error_stops_failover_witness:
  "startsRequest ''/api2/json/version'' get_options 100 (bare_device two_hosts)
   \<and> fst (getOrderedHostList 100 (hostManager (bare_device two_hosts)))
       = [] @ ''10.0.0.1'' # [''10.0.0.2'']
   \<and> distinct (map fst (hosts (hostManager (bare_device two_hosts))))
   \<and> fetch (network (first_answers 404)) ''10.0.0.1'' ''/api2/json/version'' get_options
       = (Response 404 ''no'', 40)
   \<and> fst (executeApiCallWithFallback (network (first_answers 404)) ''/api2/json/version''
           get_options 100 (bare_device two_hosts))
       = Settled (request (parse (network (first_answers 404))) get_options (Response 404 ''no''))
   \<and> issued (snd (snd (executeApiCallWithFallback (network (first_answers 404))
           ''/api2/json/version'' get_options 100 (bare_device two_hosts))))
       = [''10.0.0.1'']
   \<and> fetch (network (first_answers 503)) ''10.0.0.1'' ''/api2/json/version'' get_options
       = (Response 503 ''no'', 40)
   \<and> failureCountOf (hostManager (snd (snd (executeApiCallWithFallback
           (network (first_answers 503)) ''/api2/json/version'' get_options 100
           (bare_device two_hosts))))) ''10.0.0.1''
       = failureCountOf (hostManager (bare_device two_hosts)) ''10.0.0.1'' + 1
   \<and> (\<exists>more. issued (snd (snd (executeApiCallWithFallback (network (first_answers 503))
           ''/api2/json/version'' get_options 100 (bare_device two_hosts))))
       = ''10.0.0.1'' # ''10.0.0.2'' # more)"
proof -
  have a: "startsRequest ''/api2/json/version'' get_options 100 (bare_device two_hosts)"
    by (simp add: startsRequest_def bare_device_def getCachedResponse_def)
  have b: "fst (getOrderedHostList 100 (hostManager (bare_device two_hosts)))
       = [] @ ''10.0.0.1'' # [''10.0.0.2'']" by code_simp
  have k: "distinct (map fst (hosts (hostManager (bare_device two_hosts))))" by code_simp
  have c: "\<forall>x\<in>set []. retryable en ''/api2/json/version'' get_options x" for en
    by simp
  have d: "fetch (network (first_answers 404))
             (if ''10.0.0.1'' = [] then hostname (network (first_answers 404)) else ''10.0.0.1'')
             ''/api2/json/version'' get_options = (Response 404 ''no'', 40)"
    by (simp add: network_def first_answers_def)
  have d5: "fetch (network (first_answers 503))
             (if ''10.0.0.1'' = [] then hostname (network (first_answers 503)) else ''10.0.0.1'')
             ''/api2/json/version'' get_options = (Response 503 ''no'', 40)"
    by (simp add: network_def first_answers_def)
  have n4: "\<not> (200 \<le> (404::nat) \<and> (404::nat) \<le> 299)" by simp
  have n5: "\<not> (200 \<le> (503::nat) \<and> (503::nat) \<le> 299)" by simp
  have i: "issued (bare_device two_hosts) = []" by (simp add: bare_device_def)
  from client_error_stops_failover[OF a b c d n4]
  obtain err now' dev' where
    "request (parse (network (first_answers 404))) get_options (Response 404 ''no'') = Inl err"
    "executeApiCallWithFallback (network (first_answers 404)) ''/api2/json/version''
           get_options 100 (bare_device two_hosts) = (Settled (Inl err), now', dev')"
    "issued dev' = issued (bare_device two_hosts) @ [] @ [''10.0.0.1'']"
    by auto
  then have first: "fst (executeApiCallWithFallback (network (first_answers 404)) ''/api2/json/version''
           get_options 100 (bare_device two_hosts))
       = Settled (request (parse (network (first_answers 404))) get_options (Response 404 ''no''))"
    "issued (snd (snd (executeApiCallWithFallback (network (first_answers 404))
           ''/api2/json/version'' get_options 100 (bare_device two_hosts))))
       = [''10.0.0.1'']"
    using i by simp_all
  from client_error_stops_failover[OF a b c d5 n5] k
  obtain rep n'' dev'' where s:
    "executeApiCallWithFallback (network (first_answers 503)) ''/api2/json/version''
           get_options 100 (bare_device two_hosts) = (rep, n'', dev'')"
    "failureCountOf (hostManager dev'') ''10.0.0.1''
       = failureCountOf (hostManager (bare_device two_hosts)) ''10.0.0.1'' + 1"
    "\<forall>x xs. [''10.0.0.2''] = x # xs \<longrightarrow>
        (\<exists>more. issued dev'' = issued (bare_device two_hosts) @ [] @ [''10.0.0.1''] @ x # more)"
    by auto
  from s(3) obtain more where "issued dev'' = ''10.0.0.1'' # ''10.0.0.2'' # more"
    using i by auto
  then have second: "failureCountOf (hostManager (snd (snd (executeApiCallWithFallback
           (network (first_answers 503)) ''/api2/json/version'' get_options 100
           (bare_device two_hosts))))) ''10.0.0.1''
       = failureCountOf (hostManager (bare_device two_hosts)) ''10.0.0.1'' + 1"
    "\<exists>more. issued (snd (snd (executeApiCallWithFallback (network (first_answers 503))
           ''/api2/json/version'' get_options 100 (bare_device two_hosts))))
       = ''10.0.0.1'' # ''10.0.0.2'' # more"
    using s(1,2) by simp_all
  show ?thesis using a b k d d5 first second
    by (simp add: network_def first_answers_def)
qed

text \<open>
  The claim as it was worded, for any status outside 200..299, fails for a status 500: the
  failure is recorded for the first host, the loop goes on to the second host, and the call
  succeeds with its answer.
\<close>

theorem server_error_fails_over_counterexample:
  "fst (getOrderedHostList 100 two_hosts) = [''10.0.0.1'', ''10.0.0.2'']
   \<and> fst (send (network (first_answers 500)) ''10.0.0.1'' ''/api2/json/version'' get_options)
       = Inl \<lparr>message = ''API Error 500: no'', statusCode = Some 500, errcode = None,
              errtype = None, errname = ''Error'', responseBody = Some ''no''\<rparr>
   \<and> fst (executeApiCallWithFallback (network (first_answers 500)) ''/api2/json/version''
           get_options 100 (bare_device two_hosts)) = Settled (Inr (JObj ''{}''))
   \<and> issued (snd (snd (executeApiCallWithFallback (network (first_answers 500))
           ''/api2/json/version'' get_options 100 (bare_device two_hosts))))
       = [''10.0.0.1'', ''10.0.0.2'']
   \<and> failureCountOf (hostManager (bare_device two_hosts)) ''10.0.0.1'' = 0
   \<and> failureCountOf (hostManager (snd (snd (executeApiCallWithFallback
           (network (first_answers 500)) ''/api2/json/version'' get_options 100
           (bare_device two_hosts))))) ''10.0.0.1'' = 1"
  by code_simp

section \<open>The fallback executor: what a success records\<close>

lemma success_recorded:
  "\<exists>i. map_of (hosts (updateHostStatus n h True rt hm)) h = Some i \<and> responseTime i = rt
     \<and> failureCount i = 0 \<and> lastSeen i = n \<and> status i = Healthy"
  by (cases "map_of (hosts hm) h") (simp_all add: updateHostStatus_def Let_def update_conv')

lemma responseTimeOf_update_zero:
  "responseTimeOf (updateHostStatus n h ok 0 hm) x = responseTimeOf hm x
   \<or> responseTimeOf (updateHostStatus n h ok 0 hm) x = Some 0"
  by (cases "map_of (hosts hm) h")
     (auto simp: responseTimeOf_def updateHostStatus_def Let_def update_conv')

lemma tryHosts_returned:
  "tryHosts e path opts hs now dev le = (Returned v, now', dev') \<Longrightarrow>
   \<exists>pre h i. issued dev' = issued dev @ pre @ [h] \<and> fst (send e h path opts) = Inr v
     \<and> map_of (hosts (hostManager dev')) h = Some i \<and> responseTime i = 0
     \<and> failureCount i = 0 \<and> lastSeen i = now' \<and> status i = Healthy"
proof (induction hs arbitrary: now dev le)
  case Nil
  then show ?case by simp
next
  case (Cons h hs)
  obtain res d where s: "send e h path opts = (res, d)" by (cases "send e h path opts")
  show ?case
  proof (cases res)
    case (Inr r)
    then have eq: "v = r" "now' = now + int d"
        "hostManager dev' = updateHostStatus (now + int d) h True 0 (hostManager dev)"
        "issued dev' = issued dev @ [h]"
      using Cons.prems s by (auto simp: Let_def)
    obtain i where "map_of (hosts (hostManager dev')) h = Some i" "responseTime i = 0"
        "failureCount i = 0" "lastSeen i = now'" "status i = Healthy"
      using success_recorded[of "now + int d" h 0 "hostManager dev"] eq by auto
    then show ?thesis using eq s Inr by (intro exI[of _ "[]"] exI[of _ h] exI[of _ i]) simp
  next
    case (Inl err)
    show ?thesis
    proof (cases "noFailover err")
      case True
      then show ?thesis using Cons.prems s Inl by (simp add: Let_def)
    next
      case False
      define dev2 where "dev2 = dev\<lparr>issued := issued dev @ [h],
          hostManager := updateHostStatus (now + int d) h False 0 (hostManager dev)\<rparr>"
      have "tryHosts e path opts hs (now + int d) dev2 (Some err) = (Returned v, now', dev')"
        using Cons.prems s Inl False by (simp add: Let_def dev2_def)
      from Cons.IH[OF this] obtain pre x i where p: "issued dev' = issued dev2 @ pre @ [x]"
          "fst (send e x path opts) = Inr v" "map_of (hosts (hostManager dev')) x = Some i"
          "responseTime i = 0" "failureCount i = 0" "lastSeen i = now'" "status i = Healthy"
        by blast
      have "issued dev' = issued dev @ (h # pre) @ [x]" using p(1) by (simp add: dev2_def)
      then show ?thesis using p(2-7) by blast
    qed
  qed
qed

lemma tryHosts_response_times:
  "tryHosts e path opts hs now dev le = (r, now', dev') \<Longrightarrow>
   (\<forall>x. responseTimeOf (hostManager dev) x = rt0 x \<or> responseTimeOf (hostManager dev) x = Some 0) \<Longrightarrow>
   (\<forall>x. responseTimeOf (hostManager dev') x = rt0 x \<or> responseTimeOf (hostManager dev') x = Some 0)"
proof (induction hs arbitrary: now dev le)
  case Nil
  then show ?case by simp
next
  case (Cons h hs)
  obtain res d where s: "send e h path opts = (res, d)" by (cases "send e h path opts")
  have step: "\<forall>x. responseTimeOf (updateHostStatus (now + int d) h ok 0 (hostManager dev)) x = rt0 x
       \<or> responseTimeOf (updateHostStatus (now + int d) h ok 0 (hostManager dev)) x = Some 0" for ok
    using Cons.prems(2) responseTimeOf_update_zero[of "now + int d" h ok "hostManager dev"]
    by metis
  show ?case
  proof (cases res)
    case (Inr v)
    then have "hostManager dev' = updateHostStatus (now + int d) h True 0 (hostManager dev)"
      using Cons.prems(1) s by (auto simp: Let_def)
    then show ?thesis using step[of True] by simp
  next
    case (Inl err)
    show ?thesis
    proof (cases "noFailover err")
      case True
      then have "hostManager dev' = updateHostStatus (now + int d) h False 0 (hostManager dev)"
        using Cons.prems(1) s Inl by (auto simp: Let_def)
      then show ?thesis using step[of False] by simp
    next
      case False
      define dev2 where "dev2 = dev\<lparr>issued := issued dev @ [h],
          hostManager := updateHostStatus (now + int d) h False 0 (hostManager dev)\<rparr>"
      have t: "tryHosts e path opts hs (now + int d) dev2 (Some err) = (r, now', dev')"
        using Cons.prems(1) s Inl False by (simp add: Let_def dev2_def)
      have "\<forall>x. responseTimeOf (hostManager dev2) x = rt0 x
          \<or> responseTimeOf (hostManager dev2) x = Some 0"
        using step[of False] by (simp add: dev2_def)
      from Cons.IH[OF t this] show ?thesis .
    qed
  qed
qed

lemma tryHosts_primaryHost:
  "tryHosts e path opts hs now dev le = (r, now', dev') \<Longrightarrow>
   primaryHost (hostManager dev') = primaryHost (hostManager dev)"
proof (induction hs arbitrary: now dev le)
  case Nil
  then show ?case by simp
next
  case (Cons h hs)
  obtain res d where s: "send e h path opts = (res, d)" by (cases "send e h path opts")
  show ?case
  proof (cases res)
    case (Inr v)
    then show ?thesis using Cons.prems s by (auto simp: Let_def)
  next
    case (Inl err)
    then show ?thesis using Cons.prems Cons.IH s
      by (cases "noFailover err") (fastforce simp: Let_def)+
  qed
qed

text \<open>What a call that ran its own request has done, in terms of \<open>tryHosts\<close>.\<close>

lemma execute_cases:
  assumes x: "executeApiCallWithFallback e path opts now dev = (rep, now', dev')"
  shows "(dev' = dev \<and> now' = now)
       \<or> (\<exists>res dev0. requestPromise e path opts now dev = (res, now', dev0) \<and> rep = Settled res
            \<and> hostManager dev' = hostManager dev0 \<and> issued dev' = issued dev0
            \<and> homey dev' = homey dev0
            \<and> (isGet opts \<and> \<not> skipCache opts \<longrightarrow>
                 pendingRequests dev' (path, opts) = None
                 \<and> (\<forall>r. res = Inr r \<longrightarrow>
                       requestCache dev' (path, opts) = Some \<lparr>data = r, ts = now'\<rparr>)))"
proof (cases "startsRequest path opts now dev")
  case True
  obtain res n0 dev0 where r: "requestPromise e path opts now dev = (res, n0, dev0)"
    by (cases "requestPromise e path opts now dev") auto
  from execute_own_request[OF True r] x show ?thesis using r
    by (auto simp: setCachedResponse_def split: if_splits)
next
  case False
  then show ?thesis using x
    by (auto simp: executeApiCallWithFallback_def startsRequest_def Let_def
        split: option.splits if_splits)
qed

lemma requestPromise_cases:
  assumes r: "requestPromise e path opts now dev = (res, now', dev')"
  shows "(res = Inl (plainError ''No available hosts.'') \<and> issued dev' = issued dev
           \<and> hosts (hostManager dev') = hosts (hostManager dev))
       \<or> (\<exists>l dev1 dev2. tryHosts e path opts (fst (getOrderedHostList now (hostManager dev))) now
                 (dev\<lparr>hostManager := snd (getOrderedHostList now (hostManager dev))\<rparr>) None
               = (l, now', dev2)
             \<and> hostManager dev' = hostManager dev2 \<and> issued dev' = issued dev2
             \<and> (case l of Returned v \<Rightarrow> res = Inr v | Thrown err \<Rightarrow> res = Inl err
                  | Exhausted le \<Rightarrow> (\<exists>err. res = Inl err)))"
proof -
  obtain hl hm1 where g: "getOrderedHostList now (hostManager dev) = (hl, hm1)"
    by (cases "getOrderedHostList now (hostManager dev)")
  have hm1: "hosts hm1 = hosts (hostManager dev)"
    using getOrderedHostList_keeps(1)[of now "hostManager dev"] g by simp
  show ?thesis
  proof (cases "hl = []")
    case True
    then show ?thesis using r g hm1 by (auto simp: requestPromise_def Let_def)
  next
    case False
    obtain l n2 dev2 where t: "tryHosts e path opts hl now (dev\<lparr>hostManager := hm1\<rparr>) None = (l, n2, dev2)"
      by (cases "tryHosts e path opts hl now (dev\<lparr>hostManager := hm1\<rparr>) None") auto
    show ?thesis using r g False t
      by (cases l) (auto simp: requestPromise_def Let_def)
  qed
qed

text \<open>
  Claim C10. When a call to the executor succeeds after sending a request (it was not
  answered from the cache), the last host a request went to is the one that served it,
  and its entry then holds response time 0 and no failures, so that its score is 1000, or
  1050 for the primary host, whatever time the request took. No host entry gets a response
  time from the executor other than 0: after any such call each host has the response time
  it had before, or 0. A probe of the health check, in contrast, stores the time it
  measured.
\<close>

theorem executor_success_records_zero_latency:
  assumes run: "executeApiCallWithFallback e path opts now dev = (Settled (Inr v), now', dev')"
    and served: "issued dev' \<noteq> issued dev"
  shows "(\<exists>pre h i. issued dev' = issued dev @ pre @ [h] \<and> fst (send e h path opts) = Inr v
            \<and> map_of (hosts (hostManager dev')) h = Some i
            \<and> responseTime i = 0 \<and> failureCount i = 0
            \<and> score (primaryHost (hostManager dev')) h i
                = (if primaryHost (hostManager dev') = Some h then 1050 else 1000))
       \<and> (\<forall>x. responseTimeOf (hostManager dev') x = responseTimeOf (hostManager dev) x
              \<or> responseTimeOf (hostManager dev') x = Some 0)
       \<and> (\<forall>x r d start hm. send e x ''/api2/json/version'' pingOptions = (Inr r, d) \<longrightarrow>
              responseTimeOf (snd (pingHost e x start hm)) x = Some (int d))"
proof -
  from execute_cases[OF run] served
  obtain dev0 where r: "requestPromise e path opts now dev = (Inr v, now', dev0)"
      "hostManager dev' = hostManager dev0" "issued dev' = issued dev0"
    by auto
  let ?dev1 = "dev\<lparr>hostManager := snd (getOrderedHostList now (hostManager dev))\<rparr>"
  from requestPromise_cases[OF r(1)]
  obtain l dev2 where t: "tryHosts e path opts (fst (getOrderedHostList now (hostManager dev))) now
        ?dev1 None = (l, now', dev2)"
      "hostManager dev0 = hostManager dev2" "issued dev0 = issued dev2"
      "case l of Returned w \<Rightarrow> Inr v = (Inr w :: jserror + json) | Thrown err \<Rightarrow> Inr v = (Inl err :: jserror + json)
         | Exhausted le \<Rightarrow> (\<exists>err. Inr v = (Inl err :: jserror + json))"
    by auto
  have l: "l = Returned v" using t(4) by (cases l) auto
  from tryHosts_returned[OF t(1)[unfolded l]]
  obtain pre h i where p: "issued dev2 = issued ?dev1 @ pre @ [h]"
      "fst (send e h path opts) = Inr v" "map_of (hosts (hostManager dev2)) h = Some i"
      "responseTime i = 0" "failureCount i = 0"
    by blast
  have prim: "primaryHost (hostManager dev2) = primaryHost (hostManager dev)"
    using tryHosts_primaryHost[OF t(1)] by simp
  have sc: "score (primaryHost (hostManager dev2)) h i
      = (if primaryHost (hostManager dev2) = Some h then 1050 else 1000)"
    using p(4,5) by (simp add: score_def)
  have first: "\<exists>pre h i. issued dev' = issued dev @ pre @ [h] \<and> fst (send e h path opts) = Inr v
            \<and> map_of (hosts (hostManager dev')) h = Some i
            \<and> responseTime i = 0 \<and> failureCount i = 0
            \<and> score (primaryHost (hostManager dev')) h i
                = (if primaryHost (hostManager dev') = Some h then 1050 else 1000)"
    using p sc r(2,3) t(2,3) by (intro exI[of _ pre] exI[of _ h] exI[of _ i]) simp
  have "\<forall>x. responseTimeOf (hostManager ?dev1) x = responseTimeOf (hostManager dev) x
       \<or> responseTimeOf (hostManager ?dev1) x = Some 0"
    by (simp add: responseTimeOf_def)
  from tryHosts_response_times[OF t(1) this]
  have second: "\<forall>x. responseTimeOf (hostManager dev') x = responseTimeOf (hostManager dev) x
              \<or> responseTimeOf (hostManager dev') x = Some 0"
    using r(2) t(2) by simp
  have third: "\<forall>x r d start hm. send e x ''/api2/json/version'' pingOptions = (Inr r, d) \<longrightarrow>
              responseTimeOf (snd (pingHost e x start hm)) x = Some (int d)"
  proof (intro allI impI)
    fix x r d start hm
    assume s: "send e x ''/api2/json/version'' pingOptions = (Inr r, d)"
    obtain i where "map_of (hosts (updateHostStatus (start + int d) x True (int d) hm)) x = Some i"
        "responseTime i = int d"
      using success_recorded[of "start + int d" x "int d" hm] by blast
    then show "responseTimeOf (snd (pingHost e x start hm)) x = Some (int d)"
      using s by (simp add: pingHost_def responseTimeOf_def)
  qed
  show ?thesis using first second third by blast
qed

theorem executor_success_records_zero_latency_witness:
  "fst (executeApiCallWithFallback (network (all_ok 800)) ''/api2/json/version'' get_options 100
          (bare_device two_hosts)) = Settled (Inr (JObj ''{}''))
   \<and> snd (send (network (all_ok 800)) ''10.0.0.1'' ''/api2/json/version'' get_options) = 800
   \<and> issued (snd (snd (executeApiCallWithFallback (network (all_ok 800)) ''/api2/json/version''
          get_options 100 (bare_device two_hosts)))) = [''10.0.0.1'']
   \<and> responseTimeOf (hostManager (snd (snd (executeApiCallWithFallback (network (all_ok 800))
          ''/api2/json/version'' get_options 100 (bare_device two_hosts))))) ''10.0.0.1'' = Some 0
   \<and> responseTimeOf (snd (pingHost (network (all_ok 800)) ''10.0.0.1'' 100 two_hosts)) ''10.0.0.1''
       = Some 800"
proof -
  let ?X = "executeApiCallWithFallback (network (all_ok 800)) ''/api2/json/version'' get_options 100
          (bare_device two_hosts)"
  have a: "fst ?X = Settled (Inr (JObj ''{}''))" by code_simp
  have run: "?X = (Settled (Inr (JObj ''{}'')), fst (snd ?X), snd (snd ?X))"
    using a by (metis prod.collapse)
  have i: "issued (snd (snd ?X)) = [''10.0.0.1'']" by code_simp
  have served: "issued (snd (snd ?X)) \<noteq> issued (bare_device two_hosts)"
    using i by (simp add: bare_device_def)
  have s: "send (network (all_ok 800)) ''10.0.0.1'' ''/api2/json/version'' pingOptions
      = (Inr (JObj ''{}''), 800)" by code_simp
  have d: "snd (send (network (all_ok 800)) ''10.0.0.1'' ''/api2/json/version'' get_options) = 800"
    by code_simp
  have z: "responseTimeOf (hostManager (snd (snd ?X))) ''10.0.0.1'' = Some 0" by code_simp
  from executor_success_records_zero_latency[OF run served]
  have "responseTimeOf (snd (pingHost (network (all_ok 800)) ''10.0.0.1'' 100 two_hosts)) ''10.0.0.1''
       = Some (int 800)"
    using s by blast
  then show ?thesis using a d i z by simp
qed

section \<open>The request cache\<close>

text \<open>
  Claim C7, as amended. A cache read returns the stored data when the key has an entry
  younger than 300000 ms and \<^verbatim>\<open>null\<close> otherwise, and it never changes the cache: an
  expired entry stays where it is. A GET without \<^verbatim>\<open>skipCache\<close> whose cache read gives
  nothing usable and that finds no pending request for its key (or does not look, with
  \<^verbatim>\<open>refreshCache\<close>) sends requests of its own, and when it succeeds the entry of the key
  is overwritten with the new data and the time of completion.
\<close>

theorem cache_read_keeps_entries_refetch_overwrites:
  assumes get: "isGet opts" "\<not> skipCache opts"
    and miss: "\<not> truthy (fst (getCachedResponse now (path, opts) (requestCache dev)))"
    and free: "refreshCache opts \<or> pendingRequests dev (path, opts) = None"
    and run: "executeApiCallWithFallback e path opts now dev = (Settled (Inr r), now', dev')"
  shows "getCachedResponse t key cache =
           ((case cache key of
               None \<Rightarrow> JNull
             | Some en \<Rightarrow> if t - ts en < 300000 then data en else JNull), cache)
       \<and> (\<exists>pre h. issued dev' = issued dev @ pre @ [h] \<and> fst (send e h path opts) = Inr r)
       \<and> requestCache dev' (path, opts) = Some \<lparr>data = r, ts = now'\<rparr>"
proof -
  have start: "startsRequest path opts now dev"
    using miss free by (auto simp: startsRequest_def)
  obtain res n0 dev0 where rp: "requestPromise e path opts now dev = (res, n0, dev0)"
    by (cases "requestPromise e path opts now dev") auto
  from execute_own_request[OF start rp] run get
  have eq: "res = Inr r" "n0 = now'"
      "dev' = dev0\<lparr>requestCache := setCachedResponse now' (path, opts) r (requestCache dev0),
                   pendingRequests := (pendingRequests dev0)((path, opts) := None)\<rparr>"
    by auto
  let ?dev1 = "dev\<lparr>hostManager := snd (getOrderedHostList now (hostManager dev))\<rparr>"
  from requestPromise_cases[OF rp[unfolded eq(1,2)]]
  obtain l dev2 where t: "tryHosts e path opts (fst (getOrderedHostList now (hostManager dev))) now
        ?dev1 None = (l, now', dev2)"
      "issued dev0 = issued dev2"
      "case l of Returned w \<Rightarrow> Inr r = (Inr w :: jserror + json)
         | Thrown err \<Rightarrow> Inr r = (Inl err :: jserror + json)
         | Exhausted le \<Rightarrow> (\<exists>err. Inr r = (Inl err :: jserror + json))"
    by auto
  have l: "l = Returned r" using t(3) by (cases l) auto
  from tryHosts_returned[OF t(1)[unfolded l]]
  obtain pre h where p: "issued dev2 = issued ?dev1 @ pre @ [h]" "fst (send e h path opts) = Inr r"
    by blast
  have sent: "\<exists>pre h. issued dev' = issued dev @ pre @ [h] \<and> fst (send e h path opts) = Inr r"
    using p t(2) eq(3) by (intro exI[of _ pre] exI[of _ h]) simp
  have stored: "requestCache dev' (path, opts) = Some \<lparr>data = r, ts = now'\<rparr>"
    using eq(3) by (simp add: setCachedResponse_def)
  have read: "getCachedResponse t key cache =
           ((case cache key of
               None \<Rightarrow> JNull
             | Some en \<Rightarrow> if t - ts en < 300000 then data en else JNull), cache)"
    by (simp add: getCachedResponse_def cacheTimeout_def split: option.splits)
  show ?thesis using read sent stored by blast
qed

theorem cache_read_keeps_entries_refetch_overwrites_witness:
  "isGet get_options \<and> \<not> skipCache get_options
   \<and> \<not> truthy (fst (getCachedResponse 300000 (''/api2/json/cluster/resources'', get_options)
                      (requestCache stale_device)))
   \<and> pendingRequests stale_device (''/api2/json/cluster/resources'', get_options) = None
   \<and> fst (executeApiCallWithFallback (network (all_ok 15)) ''/api2/json/cluster/resources''
           get_options 300000 stale_device) = Settled (Inr (JObj ''{}''))
   \<and> requestCache (snd (snd (executeApiCallWithFallback (network (all_ok 15))
           ''/api2/json/cluster/resources'' get_options 300000 stale_device)))
         (''/api2/json/cluster/resources'', get_options)
       = Some \<lparr>data = JObj ''{}'',
               ts = fst (snd (executeApiCallWithFallback (network (all_ok 15))
                 ''/api2/json/cluster/resources'' get_options 300000 stale_device))\<rparr>"
proof -
  let ?X = "executeApiCallWithFallback (network (all_ok 15)) ''/api2/json/cluster/resources''
           get_options 300000 stale_device"
  have g: "isGet get_options" "\<not> skipCache get_options"
    by (simp_all add: isGet_def methodOf_def get_options_def)
  have m: "\<not> truthy (fst (getCachedResponse 300000 (''/api2/json/cluster/resources'', get_options)
                      (requestCache stale_device)))"
    by (simp add: stale_device_def getCachedResponse_def cacheTimeout_def)
  have f: "pendingRequests stale_device (''/api2/json/cluster/resources'', get_options) = None"
    by (simp add: stale_device_def bare_device_def)
  then have f': "refreshCache get_options
      \<or> pendingRequests stale_device (''/api2/json/cluster/resources'', get_options) = None"
    by simp
  have start: "startsRequest ''/api2/json/cluster/resources'' get_options 300000 stale_device"
    using m f by (simp add: startsRequest_def)
  let ?R = "requestPromise (network (all_ok 15)) ''/api2/json/cluster/resources''
           get_options 300000 stale_device"
  have r: "fst ?R = Inr (JObj ''{}'')" by code_simp
  have rp: "?R = (Inr (JObj ''{}''), fst (snd ?R), snd (snd ?R))"
    using r by (metis prod.collapse)
  from execute_own_request[OF start rp]
  have a: "fst ?X = Settled (Inr (JObj ''{}''))" by simp
  have run: "?X = (Settled (Inr (JObj ''{}'')), fst (snd ?X), snd (snd ?X))"
    using a by (metis prod.collapse)
  from cache_read_keeps_entries_refetch_overwrites[OF g m f' run]
  show ?thesis using g m f a by simp
qed

text \<open>
  The claim as it was worded has the read evict an expired entry; the entry stored at time
  0 is still in the cache after a read at time 300000 that reports nothing.
\<close>

theorem expired_entry_is_not_evicted_counterexample:
  "requestCache stale_device (''/api2/json/cluster/resources'', get_options)
       = Some \<lparr>data = JObj ''old'', ts = 0\<rparr>
   \<and> fst (getCachedResponse 300000 (''/api2/json/cluster/resources'', get_options)
           (requestCache stale_device)) = JNull
   \<and> snd (getCachedResponse 300000 (''/api2/json/cluster/resources'', get_options)
           (requestCache stale_device)) (''/api2/json/cluster/resources'', get_options)
       = Some \<lparr>data = JObj ''old'', ts = 0\<rparr>"
  by (simp add: stale_device_def getCachedResponse_def cacheTimeout_def)

section \<open>Pending requests\<close>

text \<open>
  The call taken apart is the call: the executor is \<open>decide\<close>, then the request, then
  \<open>settle\<close>; and storing the promise in between changes nothing in what the request does
  or in the state after \<open>settle\<close>.
\<close>

lemma execute_in_parts:
  "executeApiCallWithFallback e path opts now dev =
     (case decide path opts now dev of
        Hit v \<Rightarrow> (Settled (Inr v), now, dev)
      | Attach p \<Rightarrow> (Attached p, now, dev)
      | Start \<Rightarrow>
          (case requestPromise e path opts now dev of
             (res, now', dev') \<Rightarrow> (Settled res, now', settle path opts res now' dev')))"
  by (auto simp: executeApiCallWithFallback_def decide_def settle_def Let_def
      split: option.splits prod.splits)

lemma registry_update_outward:
  "(d\<lparr>pendingRequests := P\<rparr>)\<lparr>hostManager := hm\<rparr> = (d\<lparr>hostManager := hm\<rparr>)\<lparr>pendingRequests := P\<rparr>"
  "(d\<lparr>pendingRequests := P\<rparr>)\<lparr>homey := br\<rparr> = (d\<lparr>homey := br\<rparr>)\<lparr>pendingRequests := P\<rparr>"
  "(d\<lparr>pendingRequests := P\<rparr>)\<lparr>issued := tr\<rparr> = (d\<lparr>issued := tr\<rparr>)\<lparr>pendingRequests := P\<rparr>"
  by (cases d; simp)+

lemma tryHosts_registry:
  "tryHosts e path opts hs now (dev\<lparr>pendingRequests := P\<rparr>) le =
     (case tryHosts e path opts hs now dev le of
        (l, n, d) \<Rightarrow> (l, n, d\<lparr>pendingRequests := P\<rparr>))"
proof (induction hs arbitrary: now dev le)
  case Nil
  then show ?case by simp
next
  case (Cons h hs)
  obtain res d where s: "send e h path opts = (res, d)" by (cases "send e h path opts")
  show ?case
  proof (cases res)
    case (Inr v)
    then show ?thesis using s by (simp add: Let_def)
  next
    case (Inl err)
    show ?thesis
    proof (cases "noFailover err")
      case True
      then show ?thesis using s Inl by (simp add: Let_def)
    next
      case False
      let ?dev2 = "dev\<lparr>issued := issued dev @ [h],
                    hostManager := updateHostStatus (now + int d) h False 0 (hostManager dev)\<rparr>"
      have eq: "(dev\<lparr>pendingRequests := P\<rparr>)
                  \<lparr>issued := issued dev @ [h],
                   hostManager := updateHostStatus (now + int d) h False 0 (hostManager dev)\<rparr>
              = ?dev2\<lparr>pendingRequests := P\<rparr>"
        by simp
      have "tryHosts e path opts (h # hs) now (dev\<lparr>pendingRequests := P\<rparr>) le
          = tryHosts e path opts hs (now + int d) (?dev2\<lparr>pendingRequests := P\<rparr>) (Some err)"
        using s Inl False by (simp add: Let_def del: tryHosts.simps(2))
             (simp add: Let_def eq[symmetric])
      moreover have "tryHosts e path opts (h # hs) now dev le
          = tryHosts e path opts hs (now + int d) ?dev2 (Some err)"
        using s Inl False by (simp add: Let_def)
      ultimately show ?thesis using Cons.IH[of "now + int d" ?dev2 "Some err"] by simp
    qed
  qed
qed

lemma requestPromise_registry:
  "requestPromise e path opts now (dev\<lparr>pendingRequests := P\<rparr>) =
     (case requestPromise e path opts now dev of
        (res, n, d) \<Rightarrow> (res, n, d\<lparr>pendingRequests := P\<rparr>))"
proof -
  obtain hl hm1 where g: "getOrderedHostList now (hostManager dev) = (hl, hm1)"
    by (cases "getOrderedHostList now (hostManager dev)")
  obtain l n d where t: "tryHosts e path opts hl now (dev\<lparr>hostManager := hm1\<rparr>) None = (l, n, d)"
    by (cases "tryHosts e path opts hl now (dev\<lparr>hostManager := hm1\<rparr>) None") auto
  have "tryHosts e path opts hl now ((dev\<lparr>hostManager := hm1\<rparr>)\<lparr>pendingRequests := P\<rparr>) None
      = (l, n, d\<lparr>pendingRequests := P\<rparr>)"
    using tryHosts_registry[where dev="dev\<lparr>hostManager := hm1\<rparr>" and P=P and le=None
        and e=e and path=path and opts=opts and hs=hl and now=now] t by simp
  then show ?thesis using g t
    by (cases l) (simp_all add: requestPromise_def Let_def registry_update_outward)
qed

lemma requestPromise_keeps_registry:
  assumes r: "requestPromise e path opts now dev = (res, n, d)"
  shows "pendingRequests d = pendingRequests dev"
proof -
  have "requestPromise e path opts now (dev\<lparr>pendingRequests := pendingRequests dev\<rparr>)
      = (res, n, d\<lparr>pendingRequests := pendingRequests dev\<rparr>)"
    using r requestPromise_registry[where dev=dev and e=e and path=path and opts=opts
        and now=now and P="pendingRequests dev"] by simp
  then have "d = d\<lparr>pendingRequests := pendingRequests dev\<rparr>" using r by simp
  then have "pendingRequests d = pendingRequests (d\<lparr>pendingRequests := pendingRequests dev\<rparr>)"
    by simp
  then show ?thesis by simp
qed

lemma register_request_settle:
  assumes "decide path opts now dev = Start"
  shows "executeApiCallWithFallback e path opts now dev =
     (case requestPromise e path opts now (registerPending path opts p dev) of
        (res, now', dev') \<Rightarrow> (Settled res, now', settle path opts res now' dev'))"
proof -
  obtain res n d where r: "requestPromise e path opts now dev = (res, n, d)"
    by (cases "requestPromise e path opts now dev") auto
  have "requestPromise e path opts now (dev\<lparr>pendingRequests := P\<rparr>)
      = (res, n, d\<lparr>pendingRequests := P\<rparr>)" for P
    using r requestPromise_registry[where dev=dev and e=e and path=path and opts=opts
        and now=now and P=P] by simp
  then show ?thesis
    using assms r requestPromise_keeps_registry[OF r]
    by (cases res; cases "isGet opts \<and> \<not> skipCache opts")
       (auto simp: execute_in_parts registerPending_def settle_def)
qed

text \<open>
  In the executor run in one piece: a GET without \<^verbatim>\<open>skipCache\<close> and \<^verbatim>\<open>refreshCache\<close>
  that finds a promise under its key is handed that promise, and a call with
  \<^verbatim>\<open>refreshCache\<close> that finds one sends its own request all the same.
\<close>

lemma pending_promise_is_handed_out:
  assumes get: "isGet opts" "\<not> skipCache opts"
  shows "(\<not> refreshCache opts
          \<and> \<not> truthy (fst (getCachedResponse now (path, opts) (requestCache dev)))
          \<and> pendingRequests dev (path, opts) = Some p
            \<longrightarrow> executeApiCallWithFallback e path opts now dev = (Attached p, now, dev))
       \<and> (startsRequest path opts now dev
            \<longrightarrow> pendingRequests (snd (snd (executeApiCallWithFallback e path opts now dev)))
                  (path, opts) = None)"
proof (intro conjI impI)
  assume "\<not> refreshCache opts
          \<and> \<not> truthy (fst (getCachedResponse now (path, opts) (requestCache dev)))
          \<and> pendingRequests dev (path, opts) = Some p"
  then show "executeApiCallWithFallback e path opts now dev = (Attached p, now, dev)"
    using get by (simp add: executeApiCallWithFallback_def Let_def)
next
  assume start: "startsRequest path opts now dev"
  obtain res n0 dev0 where rp: "requestPromise e path opts now dev = (res, n0, dev0)"
    by (cases "requestPromise e path opts now dev") auto
  from execute_own_request[OF start rp] get
  show "pendingRequests (snd (snd (executeApiCallWithFallback e path opts now dev)))
                  (path, opts) = None"
    by simp
qed

lemma refresh_call_sends_own_request:
  "isGet refresh_options \<and> \<not> skipCache refresh_options
   \<and> pendingRequests (busy_device refresh_options)
        (''/api2/json/cluster/status'', refresh_options) = Some 7
   \<and> fst (executeApiCallWithFallback (network (all_ok 15)) ''/api2/json/cluster/status''
           refresh_options 100 (busy_device refresh_options)) = Settled (Inr (JObj ''{}''))
   \<and> issued (snd (snd (executeApiCallWithFallback (network (all_ok 15))
           ''/api2/json/cluster/status'' refresh_options 100 (busy_device refresh_options))))
       = [''10.0.0.1'']
   \<and> requestCache (snd (snd (executeApiCallWithFallback (network (all_ok 15))
           ''/api2/json/cluster/status'' refresh_options 100 (busy_device refresh_options))))
         (''/api2/json/cluster/status'', refresh_options)
       = Some \<lparr>data = JObj ''{}'', ts = 115\<rparr>"
proof -
  let ?X = "executeApiCallWithFallback (network (all_ok 15)) ''/api2/json/cluster/status''
           refresh_options 100 (busy_device refresh_options)"
  let ?R = "requestPromise (network (all_ok 15)) ''/api2/json/cluster/status''
           refresh_options 100 (busy_device refresh_options)"
  have g: "isGet refresh_options" "\<not> skipCache refresh_options"
    by (simp_all add: isGet_def methodOf_def get_options_def refresh_options_def)
  have p: "pendingRequests (busy_device refresh_options)
        (''/api2/json/cluster/status'', refresh_options) = Some 7"
    by (simp add: busy_device_def)
  have start: "startsRequest ''/api2/json/cluster/status'' refresh_options 100
      (busy_device refresh_options)"
    by (simp add: startsRequest_def refresh_options_def)
  have r: "fst ?R = Inr (JObj ''{}'')" "fst (snd ?R) = 115" "issued (snd (snd ?R)) = [''10.0.0.1'']"
    by code_simp+
  have rp: "?R = (Inr (JObj ''{}''), 115, snd (snd ?R))" using r(1,2) by (metis prod.collapse)
  from execute_own_request[OF start rp] g
  have x: "fst ?X = Settled (Inr (JObj ''{}''))" "issued (snd (snd ?X)) = issued (snd (snd ?R))"
      "requestCache (snd (snd ?X)) (''/api2/json/cluster/status'', refresh_options)
         = Some \<lparr>data = JObj ''{}'', ts = 115\<rparr>"
    by (simp_all add: setCachedResponse_def)
  show ?thesis using g p x r(3) by simp
qed

text \<open>
  What holds in every state of the loop, for a key whose options are those of a GET without
  \<^verbatim>\<open>skipCache\<close> and \<^verbatim>\<open>refreshCache\<close>.
\<close>

lemma unusable_later:
  "\<not> truthy (fst (getCachedResponse t k c)) \<Longrightarrow> t \<le> t' \<Longrightarrow>
   \<not> truthy (fst (getCachedResponse t' k c))"
  by (cases "c k") (auto simp: getCachedResponse_def split: if_splits)

lemma read_other_key:
  "k' \<noteq> k \<Longrightarrow> fst (getCachedResponse t k (c(k' \<mapsto> v))) = fst (getCachedResponse t k c)"
  by (cases "c k") (simp_all add: getCachedResponse_def)

lemma settle_other_key:
  "(path', opts') \<noteq> k \<Longrightarrow>
   pendingRequests (settle path' opts' res t dev) k = pendingRequests dev k
   \<and> fst (getCachedResponse t' k (requestCache (settle path' opts' res t dev)))
       = fst (getCachedResponse t' k (requestCache dev))"
  by (cases res) (auto simp: settle_def setCachedResponse_def read_other_key)

lemma settle_own_key:
  "isGet opts \<Longrightarrow> \<not> skipCache opts \<Longrightarrow>
   pendingRequests (settle path opts res t dev) (path, opts) = None"
  by (simp add: settle_def)

lemma register_other_key:
  "(path', opts') \<noteq> k \<Longrightarrow>
   pendingRequests (registerPending path' opts' p dev) k = pendingRequests dev k"
  by (simp add: registerPending_def)

lemma register_keeps_cache:
  "requestCache (registerPending path' opts' p dev) = requestCache dev"
  by (simp add: registerPending_def)

lemma register_own_key:
  "isGet opts \<Longrightarrow> \<not> skipCache opts \<Longrightarrow>
   pendingRequests (registerPending path opts p dev) (path, opts) = Some p"
  by (simp add: registerPending_def)

lemma decide_Start_plain:
  "isGet opts \<Longrightarrow> \<not> skipCache opts \<Longrightarrow> \<not> refreshCache opts \<Longrightarrow>
   decide path opts t dev = Start \<Longrightarrow>
   pendingRequests dev (path, opts) = None
   \<and> \<not> truthy (fst (getCachedResponse t (path, opts) (requestCache dev)))"
  by (auto simp: decide_def Let_def split: if_splits option.splits)

lemma decide_Attach_plain:
  "isGet opts \<Longrightarrow> \<not> skipCache opts \<Longrightarrow> \<not> refreshCache opts \<Longrightarrow>
   pendingRequests dev (path, opts) = Some p \<Longrightarrow>
   \<not> truthy (fst (getCachedResponse t (path, opts) (requestCache dev))) \<Longrightarrow>
   decide path opts t dev = Attach p"
  by (simp add: decide_def Let_def)

lemma loop_inv_idle: "loop_inv k (idle dev)"
  by (simp add: loop_inv_def idle_def)

lemma loop_inv_tick:
  assumes inv: "loop_inv k L"
  shows "loop_inv k (L\<lparr>clock := clock L + int d\<rparr>)"
proof -
  have "clock L \<le> clock L + int d" by simp
  then show ?thesis using inv unusable_later[of "clock L" k "requestCache (current L)" "clock L + int d"]
    by (auto simp: loop_inv_def)
qed

lemma loop_inv_start:
  assumes plain: "isGet opts" "\<not> skipCache opts" "\<not> refreshCache opts"
    and inv: "loop_inv (path, opts) L"
    and st: "decide path' opts' (clock L + int d) (current L) = Start"
  shows "loop_inv (path, opts)
           (L\<lparr>clock := clock L + int d,
              current := registerPending path' opts' (nextPromise L) (current L),
              inflight := inflight L @ [(nextPromise L, (path', opts'))],
              nextPromise := nextPromise L + 1\<rparr>)"
proof -
  let ?k = "(path, opts)"
  let ?L' = "L\<lparr>clock := clock L + int d,
              current := registerPending path' opts' (nextPromise L) (current L),
              inflight := inflight L @ [(nextPromise L, (path', opts'))],
              nextPromise := nextPromise L + 1\<rparr>"
  have d: "distinct (map fst (inflight L))" and b: "\<forall>r\<in>set (inflight L). fst r < nextPromise L"
    and reg: "\<forall>p. ((p, ?k) \<in> set (inflight L)) = (pendingRequests (current L) ?k = Some p)"
    and un: "(\<exists>p. (p, ?k) \<in> set (inflight L)) \<longrightarrow>
            \<not> truthy (fst (getCachedResponse (clock L) ?k (requestCache (current L))))"
    and out: "\<forall>p. outcomes L p \<noteq> None \<longrightarrow> p < nextPromise L \<and> p \<notin> fst ` set (inflight L)"
    using inv by (auto simp: loop_inv_def)
  have fresh: "nextPromise L \<notin> fst ` set (inflight L)" using b by auto
  have i1: "distinct (map fst (inflight ?L'))" using d fresh by simp
  have i2: "\<forall>r\<in>set (inflight ?L'). fst r < nextPromise ?L'" using b by auto
  have i5: "\<forall>p. outcomes ?L' p \<noteq> None \<longrightarrow> p < nextPromise ?L' \<and> p \<notin> fst ` set (inflight ?L')"
  proof (intro allI impI)
    fix q assume "outcomes ?L' q \<noteq> None"
    then have "outcomes L q \<noteq> None" by simp
    then have "q < nextPromise L" "q \<notin> fst ` set (inflight L)" using out by blast+
    then show "q < nextPromise ?L' \<and> q \<notin> fst ` set (inflight ?L')" by auto
  qed
  have i34: "(\<forall>p. ((p, ?k) \<in> set (inflight ?L')) = (pendingRequests (current ?L') ?k = Some p))
      \<and> ((\<exists>p. (p, ?k) \<in> set (inflight ?L')) \<longrightarrow>
            \<not> truthy (fst (getCachedResponse (clock ?L') ?k (requestCache (current ?L')))))"
  proof (cases "(path', opts') = ?k")
    case True
    then have same: "path' = path" "opts' = opts" by simp_all
    have s: "pendingRequests (current L) ?k = None"
        "\<not> truthy (fst (getCachedResponse (clock L + int d) ?k (requestCache (current L))))"
      using decide_Start_plain[OF plain, of path "clock L + int d" "current L"] st same by simp_all
    then have none: "\<forall>p. (p, ?k) \<notin> set (inflight L)" using reg by simp
    show ?thesis using s none same plain
      by (auto simp: register_own_key register_keeps_cache)
  next
    case False
    have "clock L \<le> clock L + int d" by simp
    then have "(\<exists>p. (p, ?k) \<in> set (inflight L)) \<longrightarrow>
            \<not> truthy (fst (getCachedResponse (clock L + int d) ?k (requestCache (current L))))"
      using un unusable_later[of "clock L" ?k "requestCache (current L)" "clock L + int d"] by blast
    then show ?thesis using False reg
      by (auto simp: register_other_key register_keeps_cache)
  qed
  show ?thesis unfolding loop_inv_def using i1 i2 i34 i5 by blast
qed

lemma loop_inv_settle:
  assumes plain: "isGet opts" "\<not> skipCache opts" "\<not> refreshCache opts"
    and inv: "loop_inv (path, opts) L"
    and fl: "map_of (inflight L) p = Some (path', opts')"
  shows "loop_inv (path, opts)
           (L\<lparr>clock := clock L + int d,
              current := settle path' opts' res (clock L + int d) (current L),
              inflight := filter (\<lambda>r. fst r \<noteq> p) (inflight L),
              outcomes := (outcomes L)(p \<mapsto> res)\<rparr>)"
proof -
  let ?k = "(path, opts)"
  let ?L' = "L\<lparr>clock := clock L + int d,
              current := settle path' opts' res (clock L + int d) (current L),
              inflight := filter (\<lambda>r. fst r \<noteq> p) (inflight L),
              outcomes := (outcomes L)(p \<mapsto> res)\<rparr>"
  have d: "distinct (map fst (inflight L))" and b: "\<forall>r\<in>set (inflight L). fst r < nextPromise L"
    and reg: "\<forall>q. ((q, ?k) \<in> set (inflight L)) = (pendingRequests (current L) ?k = Some q)"
    and un: "(\<exists>q. (q, ?k) \<in> set (inflight L)) \<longrightarrow>
            \<not> truthy (fst (getCachedResponse (clock L) ?k (requestCache (current L))))"
    and out: "\<forall>q. outcomes L q \<noteq> None \<longrightarrow> q < nextPromise L \<and> q \<notin> fst ` set (inflight L)"
    using inv by (auto simp: loop_inv_def)
  have mem: "(p, (path', opts')) \<in> set (inflight L)" using fl by (rule map_of_SomeD)
  have uniq: "\<And>q kk. (q, kk) \<in> set (inflight L) \<Longrightarrow> q = p \<Longrightarrow> kk = (path', opts')"
    using d mem by (meson eq_key_imp_eq_value)
  have i1: "distinct (map fst (inflight ?L'))" using d by (simp add: distinct_map_filter)
  have i2: "\<forall>r\<in>set (inflight ?L'). fst r < nextPromise ?L'" using b by auto
  have pb: "p < nextPromise L" using b mem by force
  have i5: "\<forall>q. outcomes ?L' q \<noteq> None \<longrightarrow> q < nextPromise ?L' \<and> q \<notin> fst ` set (inflight ?L')"
    using out pb by auto
  have i34: "(\<forall>q. ((q, ?k) \<in> set (inflight ?L')) = (pendingRequests (current ?L') ?k = Some q))
      \<and> ((\<exists>q. (q, ?k) \<in> set (inflight ?L')) \<longrightarrow>
            \<not> truthy (fst (getCachedResponse (clock ?L') ?k (requestCache (current ?L')))))"
  proof (cases "(path', opts') = ?k")
    case True
    then have same: "path' = path" "opts' = opts" by simp_all
    have "pendingRequests (current L) ?k = Some p" using reg mem same by simp
    then have only: "\<And>q. (q, ?k) \<in> set (inflight L) \<Longrightarrow> q = p" using reg by simp
    have gone: "\<forall>q. (q, ?k) \<notin> set (inflight ?L')" using only by auto
    have "pendingRequests (current ?L') ?k = None" using same plain by (simp add: settle_own_key)
    then have "\<forall>q. ((q, ?k) \<in> set (inflight ?L')) = (pendingRequests (current ?L') ?k = Some q)"
      using gone by simp
    moreover have "\<not> (\<exists>q. (q, ?k) \<in> set (inflight ?L'))" using gone by blast
    ultimately show ?thesis by blast
  next
    case False
    have keep: "\<And>q. ((q, ?k) \<in> set (inflight ?L')) = ((q, ?k) \<in> set (inflight L))"
      using uniq False by auto
    have "clock L \<le> clock L + int d" by simp
    then have "(\<exists>q. (q, ?k) \<in> set (inflight L)) \<longrightarrow>
            \<not> truthy (fst (getCachedResponse (clock L + int d) ?k (requestCache (current L))))"
      using un unusable_later[of "clock L" ?k "requestCache (current L)" "clock L + int d"] by blast
    then show ?thesis using keep reg settle_other_key[OF False, of res "clock L + int d" "current L"]
      by simp
  qed
  show ?thesis unfolding loop_inv_def using i1 i2 i34 i5 by blast
qed

lemma loop_inv_step:
  assumes plain: "isGet opts" "\<not> skipCache opts" "\<not> refreshCache opts"
    and inv: "loop_inv (path, opts) L"
  shows "loop_inv (path, opts) (step ev L)"
proof (cases ev)
  case (Call path' opts' d)
  show ?thesis
  proof (cases "decide path' opts' (clock L + int d) (current L)")
    case Start
    then show ?thesis using Call loop_inv_start[OF plain inv Start] by simp
  next
    case (Hit v)
    then show ?thesis using Call loop_inv_tick[OF inv, of d] by simp
  next
    case (Attach p)
    then show ?thesis using Call loop_inv_tick[OF inv, of d] by simp
  qed
next
  case (Settle p res d)
  show ?thesis
  proof (cases "map_of (inflight L) p")
    case None
    then show ?thesis using Settle loop_inv_tick[OF inv, of d] by simp
  next
    case (Some kk)
    obtain path' opts' where kk: "kk = (path', opts')" by (cases kk)
    show ?thesis using Settle Some kk loop_inv_settle[OF plain inv, where p=p and path'=path' and opts'=opts' and d=d and res=res]
      by simp
  qed
qed

lemma loop_inv_run:
  assumes plain: "isGet opts" "\<not> skipCache opts" "\<not> refreshCache opts"
  shows "loop_inv (path, opts) L \<Longrightarrow> loop_inv (path, opts) (run_loop evs L)"
  by (induction evs arbitrary: L) (simp_all add: loop_inv_step[OF plain])

lemma at_most_one_of_constant:
  "distinct ys \<Longrightarrow> \<forall>y\<in>set ys. y = c \<Longrightarrow> length ys \<le> 1"
proof (cases ys)
  case Nil
  then show ?thesis by simp
next
  case (Cons y ys')
  assume "distinct ys" "\<forall>y\<in>set ys. y = c"
  then have "ys' = []" using Cons by (cases ys') auto
  then show ?thesis using Cons by simp
qed

text \<open>
  Claim C8, as amended. Take a key of a GET that sets neither \<^verbatim>\<open>skipCache\<close> nor
  \<^verbatim>\<open>refreshCache\<close>, and any state the loop reaches from a device without pending requests,
  by any calls and settlings in any order. At most one request for the key is in flight,
  and it is in flight exactly as long as its promise is stored under the key. A call for
  the key that finds none in flight and nothing usable in the cache starts one. While one
  is in flight, every further call for the key is handed its promise and starts nothing.
  When it settles, with whatever outcome, the key leaves the registry, no request for the
  key is in flight any more, and the promise has the outcome for good, which is the
  outcome of every caller that holds it. A call with \<^verbatim>\<open>refreshCache\<close>, for any key and
  in any such state, starts a request of its own; it is cacheable all the same, since the
  result of every GET without \<^verbatim>\<open>skipCache\<close> is stored when it settles with success.
\<close>

theorem pending_request_is_shared:
  assumes plain: "isGet opts" "\<not> skipCache opts" "\<not> refreshCache opts"
    and reach: "L = run_loop evs (idle dev0)"
  shows "length (filter (\<lambda>r. snd r = (path, opts)) (inflight L)) \<le> 1
     \<and> (\<forall>p. ((p, (path, opts)) \<in> set (inflight L))
              = (pendingRequests (current L) (path, opts) = Some p))
     \<and> (\<forall>d. (\<forall>p. (p, (path, opts)) \<notin> set (inflight L))
              \<and> \<not> truthy (fst (getCachedResponse (clock L + int d) (path, opts)
                                 (requestCache (current L)))) \<longrightarrow>
            callHandle path opts d L = Promise (nextPromise L)
          \<and> inflight (step (Call path opts d) L) = inflight L @ [(nextPromise L, (path, opts))])
     \<and> (\<forall>p d. (p, (path, opts)) \<in> set (inflight L) \<longrightarrow>
            callHandle path opts d L = Promise p
          \<and> step (Call path opts d) L = L\<lparr>clock := clock L + int d\<rparr>)
     \<and> (\<forall>p res d. (p, (path, opts)) \<in> set (inflight L) \<longrightarrow>
            pendingRequests (current (step (Settle p res d) L)) (path, opts) = None
          \<and> outcomes (step (Settle p res d) L) p = Some res
          \<and> (\<forall>q. (q, (path, opts)) \<notin> set (inflight (step (Settle p res d) L))))
     \<and> (\<forall>p res ev. outcomes L p = Some res \<longrightarrow> outcomes (step ev L) p = Some res)
     \<and> (\<forall>path' opts' d. refreshCache opts' \<longrightarrow>
            callHandle path' opts' d L = Promise (nextPromise L)
          \<and> inflight (step (Call path' opts' d) L) = inflight L @ [(nextPromise L, (path', opts'))])
     \<and> (\<forall>path' opts' r t dev. isGet opts' \<and> \<not> skipCache opts' \<longrightarrow>
            requestCache (settle path' opts' (Inr r) t dev) (path', opts')
              = Some \<lparr>data = r, ts = t\<rparr>)"
proof -
  let ?k = "(path, opts)"
  have inv: "loop_inv ?k L"
    unfolding reach using loop_inv_idle by (rule loop_inv_run[OF plain])
  have d: "distinct (map fst (inflight L))"
    and reg: "\<forall>p. ((p, ?k) \<in> set (inflight L)) = (pendingRequests (current L) ?k = Some p)"
    and un: "(\<exists>p. (p, ?k) \<in> set (inflight L)) \<longrightarrow>
            \<not> truthy (fst (getCachedResponse (clock L) ?k (requestCache (current L))))"
    and out: "\<forall>p. outcomes L p \<noteq> None \<longrightarrow> p < nextPromise L \<and> p \<notin> fst ` set (inflight L)"
    using inv by (auto simp: loop_inv_def)
  have one: "length (filter (\<lambda>r. snd r = ?k) (inflight L)) \<le> 1"
  proof (cases "pendingRequests (current L) ?k")
    case None
    then have "\<forall>r\<in>set (inflight L). snd r \<noteq> ?k" using reg by (metis option.distinct(1) prod.collapse)
    then have "filter (\<lambda>r. snd r = ?k) (inflight L) = []" by (simp add: filter_empty_conv)
    then show ?thesis by simp
  next
    case (Some p0)
    let ?xs = "filter (\<lambda>r. snd r = ?k) (inflight L)"
    have "distinct (map fst ?xs)" using d by (rule distinct_map_filter)
    moreover have "\<forall>y\<in>set (map fst ?xs). y = p0"
    proof
      fix y assume "y \<in> set (map fst ?xs)"
      then obtain r where r: "r \<in> set (inflight L)" "snd r = ?k" "y = fst r" by auto
      then have "(y, ?k) \<in> set (inflight L)" by (metis prod.collapse)
      then show "y = p0" using reg Some by simp
    qed
    ultimately have "length (map fst ?xs) \<le> 1" by (rule at_most_one_of_constant)
    then show ?thesis by simp
  qed
  have starts: "callHandle path opts dl L = Promise (nextPromise L)
          \<and> inflight (step (Call path opts dl) L) = inflight L @ [(nextPromise L, ?k)]"
    if a: "\<forall>p. (p, ?k) \<notin> set (inflight L)"
      and b: "\<not> truthy (fst (getCachedResponse (clock L + int dl) ?k (requestCache (current L))))"
    for dl
  proof -
    have "pendingRequests (current L) ?k = None" using a reg by (metis option.exhaust)
    then have "decide path opts (clock L + int dl) (current L) = Start"
      using b by (simp add: decide_def Let_def)
    then show ?thesis by (simp add: callHandle_def)
  qed
  have attaches: "callHandle path opts dl L = Promise p
          \<and> step (Call path opts dl) L = L\<lparr>clock := clock L + int dl\<rparr>"
    if m: "(p, ?k) \<in> set (inflight L)" for p dl
  proof -
    have "clock L \<le> clock L + int dl" by simp
    then have "\<not> truthy (fst (getCachedResponse (clock L + int dl) ?k (requestCache (current L))))"
      using un m unusable_later[of "clock L" ?k "requestCache (current L)" "clock L + int dl"]
      by blast
    moreover have "pendingRequests (current L) ?k = Some p" using reg m by simp
    ultimately have "decide path opts (clock L + int dl) (current L) = Attach p"
      using plain by (simp add: decide_Attach_plain)
    then show ?thesis by (simp add: callHandle_def)
  qed
  have settles: "pendingRequests (current (step (Settle p res dl) L)) ?k = None
          \<and> outcomes (step (Settle p res dl) L) p = Some res
          \<and> (\<forall>q. (q, ?k) \<notin> set (inflight (step (Settle p res dl) L)))"
    if m: "(p, ?k) \<in> set (inflight L)" for p res dl
  proof -
    have f: "map_of (inflight L) p = Some ?k" using d m by (rule map_of_is_SomeI)
    have "pendingRequests (current L) ?k = Some p" using reg m by simp
    then have only: "\<And>q. (q, ?k) \<in> set (inflight L) \<Longrightarrow> q = p" using reg by simp
    show ?thesis using f plain only by (auto simp: settle_own_key)
  qed
  have fixed: "outcomes (step ev L) p = Some res" if o: "outcomes L p = Some res" for p res ev
  proof (cases ev)
    case (Call path' opts' dl)
    then show ?thesis using o
      by (cases "decide path' opts' (clock L + int dl) (current L)") simp_all
  next
    case (Settle q res' dl)
    show ?thesis
    proof (cases "map_of (inflight L) q")
      case None
      then show ?thesis using Settle o by simp
    next
      case (Some kk)
      then have "(q, kk) \<in> set (inflight L)" by (rule map_of_SomeD)
      then have "q \<in> fst ` set (inflight L)" by force
      moreover have "p \<notin> fst ` set (inflight L)" using out o by simp
      ultimately have "q \<noteq> p" by blast
      then show ?thesis using Settle Some o by (cases kk) simp
    qed
  qed
  have refresh: "callHandle path' opts' dl L = Promise (nextPromise L)
          \<and> inflight (step (Call path' opts' dl) L) = inflight L @ [(nextPromise L, (path', opts'))]"
    if rf: "refreshCache opts'" for path' opts' dl
  proof -
    have "decide path' opts' (clock L + int dl) (current L) = Start"
      using rf by (simp add: decide_def Let_def)
    then show ?thesis by (simp add: callHandle_def)
  qed
  have stored: "requestCache (settle path' opts' (Inr r) t dev) (path', opts')
              = Some \<lparr>data = r, ts = t\<rparr>"
    if "isGet opts' \<and> \<not> skipCache opts'" for path' opts' r t dev
    using that by (simp add: settle_def setCachedResponse_def)
  show ?thesis using one reg starts attaches settles fixed refresh stored by blast
qed

lemma one_call_inflight: "inflight one_call = [(0, status_key get_options)]"
  by (simp add: one_call_def idle_def decide_def bare_device_def getCachedResponse_def
      get_options_def isGet_def methodOf_def Let_def status_key_def)

theorem pending_request_is_shared_witness:
  "isGet get_options \<and> \<not> skipCache get_options \<and> \<not> refreshCache get_options
   \<and> inflight one_call = [(0, status_key get_options)]
   \<and> callHandle ''/api2/json/cluster/status'' get_options 3 one_call = Promise 0
   \<and> inflight (step (Call ''/api2/json/cluster/status'' get_options 3) one_call)
       = [(0, status_key get_options)]
   \<and> pendingRequests (current (step (Settle 0 (Inl (plainError ''down'')) 40) one_call))
        (status_key get_options) = None
   \<and> outcomes (step (Settle 0 (Inl (plainError ''down'')) 40) one_call) 0
       = Some (Inl (plainError ''down''))"
proof -
  have g: "isGet get_options" "\<not> skipCache get_options" "\<not> refreshCache get_options"
    by (simp_all add: isGet_def methodOf_def get_options_def)
  have m: "(0, (''/api2/json/cluster/status'', get_options)) \<in> set (inflight one_call)"
    by (simp add: one_call_inflight status_key_def)
  from pending_request_is_shared[OF g one_call_def, of "''/api2/json/cluster/status''"]
  have att: "\<forall>p d. (p, (''/api2/json/cluster/status'', get_options)) \<in> set (inflight one_call) \<longrightarrow>
            callHandle ''/api2/json/cluster/status'' get_options d one_call = Promise p
          \<and> step (Call ''/api2/json/cluster/status'' get_options d) one_call
              = one_call\<lparr>clock := clock one_call + int d\<rparr>"
    and stl: "\<forall>p res d. (p, (''/api2/json/cluster/status'', get_options)) \<in> set (inflight one_call) \<longrightarrow>
            pendingRequests (current (step (Settle p res d) one_call))
              (''/api2/json/cluster/status'', get_options) = None
          \<and> outcomes (step (Settle p res d) one_call) p = Some res
          \<and> (\<forall>q. (q, (''/api2/json/cluster/status'', get_options))
                 \<notin> set (inflight (step (Settle p res d) one_call)))"
    by blast+
  have a3: "callHandle ''/api2/json/cluster/status'' get_options 3 one_call = Promise 0"
    "step (Call ''/api2/json/cluster/status'' get_options 3) one_call
       = one_call\<lparr>clock := clock one_call + int 3\<rparr>"
    using att m by blast+
  have s3: "pendingRequests (current (step (Settle 0 (Inl (plainError ''down'')) 40) one_call))
        (''/api2/json/cluster/status'', get_options) = None"
    "outcomes (step (Settle 0 (Inl (plainError ''down'')) 40) one_call) 0
       = Some (Inl (plainError ''down''))"
    using stl m by blast+
  have "inflight (step (Call ''/api2/json/cluster/status'' get_options 3) one_call)
       = inflight one_call"
    by (simp only: a3(2)) simp
  then show ?thesis using g one_call_inflight a3(1) s3 by (simp add: status_key_def)
qed

text \<open>
  The claim as it was worded covers every cacheable call; a GET with \<^verbatim>\<open>refreshCache\<close> is
  cacheable (its result is stored) but does not look at the registry. Two such calls for
  one key are in flight side by side, and when the first settles the key leaves the
  registry while the second is still in flight.
\<close>

lemma two_refresh_inflight:
  "inflight two_refresh_calls = [(0, status_key refresh_options), (1, status_key refresh_options)]"
  by (simp add: two_refresh_calls_def idle_def decide_def bare_device_def getCachedResponse_def
      get_options_def refresh_options_def isGet_def methodOf_def Let_def status_key_def
      registerPending_def)

theorem refresh_calls_run_side_by_side_counterexample:
  "isGet refresh_options \<and> \<not> skipCache refresh_options
   \<and> inflight two_refresh_calls
       = [(0, status_key refresh_options), (1, status_key refresh_options)]
   \<and> length (filter (\<lambda>r. snd r = status_key refresh_options) (inflight two_refresh_calls)) = 2
   \<and> inflight (step (Settle 0 (Inr (JObj ''{}'')) 40) two_refresh_calls)
       = [(1, status_key refresh_options)]
   \<and> pendingRequests (current (step (Settle 0 (Inr (JObj ''{}'')) 40) two_refresh_calls))
        (status_key refresh_options) = None
   \<and> requestCache (current (step (Settle 0 (Inr (JObj ''{}'')) 40) two_refresh_calls))
        (status_key refresh_options) = Some \<lparr>data = JObj ''{}'', ts = 51\<rparr>"
proof -
  have g: "isGet refresh_options" "\<not> skipCache refresh_options"
    by (simp_all add: isGet_def methodOf_def get_options_def refresh_options_def)
  have c: "clock two_refresh_calls = 11"
    by (simp add: two_refresh_calls_def idle_def decide_def bare_device_def getCachedResponse_def
      get_options_def refresh_options_def isGet_def methodOf_def Let_def)
  show ?thesis using g c
    by (simp add: two_refresh_inflight status_key_def settle_def setCachedResponse_def)
qed


end
